theory Spec2Isabelle
  imports Main "HOL-Library.Word" "HOL-Library.Char_ord" "HOL-Library.List_Lexorder"
    "HOL-Library.Multiset"
begin

section \<open>Data model\<close>

text \<open>
  The program is \<^verbatim>\<open>repo_to_pdf.py\<close>: it walks a directory, keeps the files
  its allow-lists select, sorts them, reads each one and assembles the list of flowables
  (the \<^verbatim>\<open>story\<close>) that the PDF library lays out.

  A Python \<^verbatim>\<open>str\<close> is modelled as a \<^typ>\<open>string\<close>: one \<^typ>\<open>char\<close> per code
  point, which covers the code points U+0000 to U+00FF. A file's bytes are 8-bit words.
  A \<^verbatim>\<open>pathlib.Path\<close> is the list of its \<^verbatim>\<open>parts\<close>; the first part of
  an absolute POSIX path is the string \<^verbatim>\<open>/\<close>.
\<close>

type_synonym byte = "8 word"

type_synonym path = "string list"

text \<open>The exceptions that can leave a function of the program.\<close>

datatype error = FileNotFoundError | PermissionError | OSError | ValueError

text \<open>
  The styles and flowables that \<^verbatim>\<open>main\<close> puts into the story. The two
  lengths of a spacer are in tenths of a point (an inch is 72 points).
\<close>

datatype style = Heading1 | CustomTitle | CustomSubtitle | FileHeader | Code | TOC

datatype flowable =
    Spacer nat nat
  | Paragraph string style
  | PageBreak
  | Preformatted string style

text \<open>
  What the program asks of the operating system and of the PDF library.
  \<^item> \<open>walk root\<close> is the iteration of \<^verbatim>\<open>root.rglob('*')\<close>: the entries it yields,
    in the order the operating system lists them, each as the parts below \<open>root\<close>, and
    the exception that ended the iteration, if one did.
  \<^item> \<open>is_file p\<close> is \<^verbatim>\<open>p.is_file()\<close>.
  \<^item> \<open>read_bytes p\<close> is opening \<open>p\<close> and reading it to the end: the bytes, or the
    \<^verbatim>\<open>OSError\<close> raised.
  \<^item> \<open>build out story\<close> is \<^verbatim>\<open>SimpleDocTemplate(out, ...).build(story)\<close>: the
    exception raised while the document is written, if any.
\<close>

record filesystem =
  walk :: "path \<Rightarrow> path list \<times> error option"
  is_file :: "path \<Rightarrow> error + bool"
  read_bytes :: "path \<Rightarrow> error + byte list"
  build :: "string \<Rightarrow> flowable list \<Rightarrow> error option"

text \<open>
  The codecs of the Python runtime whose tables are not part of the program: strict
  decoding returns \<open>None\<close> where Python raises \<^verbatim>\<open>UnicodeDecodeError\<close>;
  \<open>utf_8_replace\<close> is \<^verbatim>\<open>bytes.decode('utf-8', errors='replace')\<close>, which cannot fail.
\<close>

record codecs =
  utf_8 :: "byte list \<Rightarrow> string option"
  cp1252 :: "byte list \<Rightarrow> string option"
  utf_8_replace :: "byte list \<Rightarrow> string"

section \<open>Strings and paths\<close>

text \<open>
  \<^verbatim>\<open>str.lower()\<close> on the code points below U+0100: the letters A to Z and the
  Latin-1 capitals U+00C0 to U+00DE (U+00D7, the multiplication sign, is not a letter)
  move up by 32; every other code point is left as it is.
\<close>

definition lower_char :: "char \<Rightarrow> char" where
  "lower_char c =
     (let n = (of_char c :: nat)
      in if (65 \<le> n \<and> n \<le> 90) \<or> (192 \<le> n \<and> n \<le> 222 \<and> n \<noteq> 215)
         then char_of (n + 32) else c)"

definition lower :: "string \<Rightarrow> string" where
  "lower s = map lower_char s"

text \<open>\<^verbatim>\<open>sep.join(parts)\<close>.\<close>

fun join :: "string \<Rightarrow> string list \<Rightarrow> string" where
  "join sep [] = []"
| "join sep [p] = p"
| "join sep (p # q # ps) = p @ sep @ join sep (q # ps)"

text \<open>\<^verbatim>\<open>str(path)\<close> of a POSIX path.\<close>

fun path_str :: "path \<Rightarrow> string" where
  "path_str [] = ''.''"
| "path_str (p # ps) = (if p = ''/'' then ''/'' @ join ''/'' ps else join ''/'' (p # ps))"

text \<open>\<^verbatim>\<open>path.name\<close>: the last part, empty for the root and for the empty path.\<close>

definition name :: "path \<Rightarrow> string" where
  "name p = (if p = [] \<or> p = [''/''] then [] else last p)"

text \<open>\<^verbatim>\<open>s.rfind(c)\<close> for one character: the last index of \<open>c\<close>, \<open>None\<close> for -1.\<close>

fun rfind :: "char \<Rightarrow> string \<Rightarrow> nat option" where
  "rfind c [] = None"
| "rfind c (x # xs) =
     (case rfind c xs of
        Some i \<Rightarrow> Some (Suc i)
      | None \<Rightarrow> if x = c then Some 0 else None)"

text \<open>
  \<^verbatim>\<open>path.suffix\<close>, as pathlib computes it in Python 3.12: with \<open>i\<close> the last index
  of a dot in the name, the name from \<open>i\<close> on when \<open>0 < i < len(name) - 1\<close>, else the
  empty string.
\<close>

definition suffix :: "path \<Rightarrow> string" where
  "suffix p =
     (case rfind CHR ''.'' (name p) of
        None \<Rightarrow> []
      | Some i \<Rightarrow> if 0 < i \<and> i + 1 < length (name p) then drop i (name p) else [])"

text \<open>
  \<^verbatim>\<open>path.relative_to(other)\<close>: the parts after \<open>other\<close>, \<^verbatim>\<open>ValueError\<close> when
  \<open>path\<close> does not start with \<open>other\<close>.
\<close>

definition relative_to :: "path \<Rightarrow> path \<Rightarrow> error + path" where
  "relative_to p other =
     (if take (length other) p = other then Inr (drop (length other) p) else Inl ValueError)"

text \<open>\<^verbatim>\<open>str(n)\<close> of a non-negative integer: its decimal digits.\<close>

definition digit_char :: "nat \<Rightarrow> char" where
  "digit_char d = char_of (48 + d)"

function str_nat :: "nat \<Rightarrow> string" where
  "str_nat n = (if n < 10 then [digit_char n] else str_nat (n div 10) @ [digit_char (n mod 10)])"
  by pat_completeness auto
termination
  by (relation "measure id") auto

declare str_nat.simps [simp del]

text \<open>
  \<^verbatim>\<open>text.replace(old, new)\<close> where \<open>old\<close> is one character: every occurrence, from
  left to right, is replaced.
\<close>

definition replace :: "char \<Rightarrow> string \<Rightarrow> string \<Rightarrow> string" where
  "replace old new text = concat (map (\<lambda>c. if c = old then new else [c]) text)"

section \<open>Configuration\<close>

definition REPO_ROOT :: path where
  "REPO_ROOT = [''/'', ''home'', ''user'', ''CodeUpgradeEngine'']"

definition EXCLUDE_DIRS :: "string set" where
  "EXCLUDE_DIRS =
     {''node_modules'', ''.git'', ''dist'', ''build'', ''__pycache__'',
      ''.next'', ''.cache'', ''coverage'', ''.nyc_output'', ''venv'', ''.venv''}"

definition INCLUDE_EXTENSIONS :: "string set" where
  "INCLUDE_EXTENSIONS =
     {''.py'', ''.js'', ''.ts'', ''.tsx'', ''.jsx'', ''.json'', ''.md'', ''.txt'',
      ''.html'', ''.css'', ''.scss'', ''.yaml'', ''.yml'', ''.sh'', ''.sql'',
      ''.xml'', ''.toml'', ''.cfg'', ''.ini'', ''.go'', ''.rs'', ''.java'',
      ''.c'', ''.cpp'', ''.h'', ''.hpp'', ''.env'', ''.gitignore'', ''.lock'',
      ''.cs'', ''.xaml'', ''.csproj'', ''.addin'', ''.sln'', ''.resx''}"

definition INCLUDE_FILES :: "string set" where
  "INCLUDE_FILES =
     {''Dockerfile'', ''Makefile'', ''Procfile'', ''.env'', ''.env.example'',
      ''.gitignore'', ''.dockerignore'', ''.prettierrc'', ''.eslintrc'', ''.replit''}"

section \<open>Selector\<close>

text \<open>
  \<^verbatim>\<open>should_include_file\<close>: the loop over the parts returns \<open>False\<close> at the first
  excluded one; then the exact names, then the lower-cased suffix.
\<close>

definition should_include_file :: "path \<Rightarrow> bool" where
  "should_include_file filepath =
     (if list_ex (\<lambda>part. part \<in> EXCLUDE_DIRS) filepath then False
      else if name filepath \<in> INCLUDE_FILES then True
      else lower (suffix filepath) \<in> INCLUDE_EXTENSIONS)"

text \<open>
  The body of the loop of \<^verbatim>\<open>get_all_files\<close>: whether \<open>filepath\<close> is appended,
  or the exception of \<^verbatim>\<open>is_file\<close>.
\<close>

definition keep :: "filesystem \<Rightarrow> path \<Rightarrow> error + bool" where
  "keep fs filepath =
     (case is_file fs filepath of
        Inl e \<Rightarrow> Inl e
      | Inr f \<Rightarrow>
          if f \<and> should_include_file filepath then
            if name filepath = ''repo_to_pdf.py'' \<or> suffix filepath = ''.pdf'' then Inr False
            else if name filepath = ''package-lock.json'' then Inr False
            else Inr True
          else Inr False)"

text \<open>The loop itself: the files appended, in the order of the iteration.\<close>

fun collect :: "filesystem \<Rightarrow> path list \<Rightarrow> error + path list" where
  "collect fs [] = Inr []"
| "collect fs (filepath # rest) =
     (case keep fs filepath of
        Inl e \<Rightarrow> Inl e
      | Inr k \<Rightarrow>
          (case collect fs rest of
             Inl e \<Rightarrow> Inl e
           | Inr files \<Rightarrow> Inr (if k then filepath # files else files)))"

text \<open>\<^verbatim>\<open>root.rglob('*')\<close> yields \<open>root / rel\<close> for every entry \<open>rel\<close> of the walk.\<close>

definition rglob :: "filesystem \<Rightarrow> path \<Rightarrow> path list \<times> error option" where
  "rglob fs root = (map (\<lambda>rel. root @ rel) (fst (walk fs root)), snd (walk fs root))"

text \<open>The key of \<^verbatim>\<open>files.sort\<close>.\<close>

definition sort_key_of :: "path \<Rightarrow> string" where
  "sort_key_of x = lower (path_str x)"

text \<open>
  \<^verbatim>\<open>get_all_files\<close>. An exception of \<^verbatim>\<open>is_file\<close> leaves the loop at once;
  one that ends the iteration is raised after the entries yielded before it. The sort
  is stable, as \<^verbatim>\<open>list.sort\<close> is.
\<close>

definition get_all_files :: "filesystem \<Rightarrow> path \<Rightarrow> error + path list" where
  "get_all_files fs root =
     (case collect fs (fst (rglob fs root)) of
        Inl e \<Rightarrow> Inl e
      | Inr files \<Rightarrow>
          (case snd (rglob fs root) of
             Some e \<Rightarrow> Inl e
           | None \<Rightarrow> Inr (sort_key sort_key_of files)))"

section \<open>The walk of pathlib\<close>

text \<open>
  The directory tree as \<^verbatim>\<open>os.scandir\<close> shows it. A directory has its entries, in the
  order in which it is listed, and the \<^verbatim>\<open>OSError\<close> that listing it raises when it
  cannot be listed.
\<close>

datatype node = File | Dir "error option" "(string \<times> node) list"

text \<open>
  \<^verbatim>\<open>root.rglob('*')\<close> as pathlib runs it on such a tree. The directories are visited
  from the root down, each one before the directories below it, and every entry of a
  visited directory is yielded. An \<^verbatim>\<open>OSError\<close> of a listing is caught inside pathlib,
  and the directory is passed over, when \<open>ignored\<close> holds of it; any other one ends the
  iteration after the entries yielded so far. Python 3.11 catches
  \<^verbatim>\<open>PermissionError\<close> there, and Python 3.12 every \<^verbatim>\<open>OSError\<close>.
\<close>

fun rglob_dir :: "(error \<Rightarrow> bool) \<Rightarrow> path \<Rightarrow> node \<Rightarrow> path list \<times> error option"
  and rglob_subdirs ::
    "(error \<Rightarrow> bool) \<Rightarrow> path \<Rightarrow> (string \<times> node) list \<Rightarrow> path list \<times> error option"
where
  "rglob_dir ignored rel File = ([], None)"
| "rglob_dir ignored rel (Dir (Some e) entries) =
     (if ignored e then ([], None) else ([], Some e))"
| "rglob_dir ignored rel (Dir None entries) =
     (case rglob_subdirs ignored rel entries of
        (below, raised) \<Rightarrow> (map (\<lambda>entry. rel @ [fst entry]) entries @ below, raised))"
| "rglob_subdirs ignored rel [] = ([], None)"
| "rglob_subdirs ignored rel ((entry_name, child) # rest) =
     (case rglob_dir ignored (rel @ [entry_name]) child of
        (below, Some e) \<Rightarrow> (below, Some e)
      | (below, None) \<Rightarrow>
          (case rglob_subdirs ignored rel rest of
             (further, raised) \<Rightarrow> (below @ further, raised)))"

text \<open>
  What the two versions catch. Of the exceptions of the model, all but
  \<^verbatim>\<open>ValueError\<close> are \<^verbatim>\<open>OSError\<close>s.
\<close>

definition ignored_3_11 :: "error \<Rightarrow> bool" where
  "ignored_3_11 e \<longleftrightarrow> e = PermissionError"

definition ignored_3_12 :: "error \<Rightarrow> bool" where
  "ignored_3_12 e \<longleftrightarrow> e \<noteq> ValueError"

text \<open>A file system whose walk is the walk of pathlib on a tree.\<close>

definition tree_fs :: "(error \<Rightarrow> bool) \<Rightarrow> node \<Rightarrow> filesystem \<Rightarrow> filesystem" where
  "tree_fs ignored tree fs = fs\<lparr>walk := (\<lambda>root. rglob_dir ignored [] tree)\<rparr>"

section \<open>Reader\<close>

datatype encoding = UTF_8 | LATIN_1 | CP1252

text \<open>
  Latin-1 (ISO 8859-1) has no table: byte \<open>n\<close> is code point \<open>n\<close>, for each of the 256
  bytes, so decoding it never raises.
\<close>

definition latin_1 :: "byte list \<Rightarrow> string" where
  "latin_1 bs = map (\<lambda>b. char_of (unat b)) bs"

definition decode :: "codecs \<Rightarrow> encoding \<Rightarrow> byte list \<Rightarrow> string option" where
  "decode cs enc bs =
     (case enc of
        UTF_8 \<Rightarrow> utf_8 cs bs
      | LATIN_1 \<Rightarrow> Some (latin_1 bs)
      | CP1252 \<Rightarrow> cp1252 cs bs)"

text \<open>
  A file opened in text mode with the default \<^verbatim>\<open>newline=None\<close> is read with
  universal newlines: \<^verbatim>\<open>\r\n\<close> and a lone \<^verbatim>\<open>\r\<close> become \<^verbatim>\<open>\n\<close>.
\<close>

fun universal_newlines :: "string \<Rightarrow> string" where
  "universal_newlines [] = []"
| "universal_newlines [c] = [if c = CHR 0x0D then CHR 0x0A else c]"
| "universal_newlines (c # d # ds) =
     (if c = CHR 0x0D \<and> d = CHR 0x0A then CHR 0x0A # universal_newlines ds
      else if c = CHR 0x0D then CHR 0x0A # universal_newlines (d # ds)
      else c # universal_newlines (d # ds))"

text \<open>
  The loop of \<^verbatim>\<open>read_file_safely\<close> over the encodings still to try, and the
  binary read after it. Each round opens the file again; an \<^verbatim>\<open>OSError\<close> is not
  caught by the \<^verbatim>\<open>except\<close> clause, a decoding error is.
\<close>

fun try_encodings :: "codecs \<Rightarrow> filesystem \<Rightarrow> encoding list \<Rightarrow> path \<Rightarrow> error + string" where
  "try_encodings cs fs [] filepath =
     (case read_bytes fs filepath of
        Inl e \<Rightarrow> Inl e
      | Inr bs \<Rightarrow> Inr (utf_8_replace cs bs))"
| "try_encodings cs fs (encoding # rest) filepath =
     (case read_bytes fs filepath of
        Inl e \<Rightarrow> Inl e
      | Inr bs \<Rightarrow>
          (case decode cs encoding bs of
             Some text \<Rightarrow> Inr (universal_newlines text)
           | None \<Rightarrow> try_encodings cs fs rest filepath))"

definition read_file_safely :: "codecs \<Rightarrow> filesystem \<Rightarrow> path \<Rightarrow> error + string" where
  "read_file_safely cs fs filepath = try_encodings cs fs [UTF_8, LATIN_1, CP1252] filepath"

section \<open>Renderer\<close>

definition escape_xml :: "string \<Rightarrow> string" where
  "escape_xml text =
     (let text = replace CHR ''&'' ''&amp;'' text;
          text = replace CHR ''<'' ''&lt;'' text;
          text = replace CHR ''>'' ''&gt;'' text
      in text)"

text \<open>
  What a run leaves behind: the lines printed, and either the exception that ended it or
  the story that was built into the PDF.
\<close>

record run =
  stdout :: "string list"
  outcome :: "error + flowable list"

definition title_page :: "path list \<Rightarrow> flowable list" where
  "title_page files =
     [Spacer 10 1440,
      Paragraph ''CodeUpgradeEngine'' CustomTitle,
      Paragraph ''Complete Repository Source Code'' CustomSubtitle,
      Paragraph (''Total Files: '' @ str_nat (length files)) CustomSubtitle,
      PageBreak]"

definition toc_heading :: "flowable list" where
  "toc_heading = [Paragraph ''Table of Contents'' Heading1, Spacer 10 144]"

text \<open>The first loop of \<^verbatim>\<open>main\<close>, over \<^verbatim>\<open>enumerate(files, 1)\<close> from \<open>i\<close> on.\<close>

fun toc_entries :: "nat \<Rightarrow> path list \<Rightarrow> error + flowable list" where
  "toc_entries i [] = Inr []"
| "toc_entries i (filepath # rest) =
     (case relative_to filepath REPO_ROOT of
        Inl e \<Rightarrow> Inl e
      | Inr relative_path \<Rightarrow>
          (let toc_entry = str_nat i @ ''. '' @ path_str relative_path
           in case toc_entries (Suc i) rest of
                Inl e \<Rightarrow> Inl e
              | Inr entries \<Rightarrow> Inr (Paragraph (escape_xml toc_entry) TOC # entries)))"

text \<open>
  The second loop, with \<open>n = len(files)\<close>: the lines it prints, and the flowables it
  appends or the exception that ends it.
\<close>

fun file_sections ::
  "codecs \<Rightarrow> filesystem \<Rightarrow> nat \<Rightarrow> nat \<Rightarrow> path list \<Rightarrow> string list \<times> (error + flowable list)"
where
  "file_sections cs fs n i [] = ([], Inr [])"
| "file_sections cs fs n i (filepath # rest) =
     (case relative_to filepath REPO_ROOT of
        Inl e \<Rightarrow> ([], Inl e)
      | Inr relative_path \<Rightarrow>
          (let line = ''Processing ('' @ str_nat i @ ''/'' @ str_nat n @ ''): ''
                        @ path_str relative_path;
               header_text = ''File: '' @ path_str relative_path
           in case read_file_safely cs fs filepath of
                Inl e \<Rightarrow> ([line], Inl e)
              | Inr content \<Rightarrow>
                  (let content = escape_xml content;
                       content = replace CHR 0x09 ''    '' content;
                       section = [Paragraph (escape_xml header_text) FileHeader,
                                  Preformatted content Code,
                                  PageBreak]
                   in case file_sections cs fs n (Suc i) rest of
                        (out, Inl e) \<Rightarrow> (line # out, Inl e)
                      | (out, Inr sections) \<Rightarrow> (line # out, Inr (section @ sections)))))"

definition output_path :: path where
  "output_path = REPO_ROOT @ [''CodeUpgradeEngine_Repository.pdf'']"

definition main :: "codecs \<Rightarrow> filesystem \<Rightarrow> run" where
  "main cs fs =
     (let out0 = [''Collecting files from repository...'']
      in case get_all_files fs REPO_ROOT of
           Inl e \<Rightarrow> \<lparr>stdout = out0, outcome = Inl e\<rparr>
         | Inr files \<Rightarrow>
             (let out1 = out0 @ [''Found '' @ str_nat (length files) @ '' files to include''];
                  story = title_page files @ toc_heading
              in case toc_entries 1 files of
                   Inl e \<Rightarrow> \<lparr>stdout = out1, outcome = Inl e\<rparr>
                 | Inr entries \<Rightarrow>
                     (let story = story @ entries @ [PageBreak]
                      in case file_sections cs fs (length files) 1 files of
                           (out2, Inl e) \<Rightarrow> \<lparr>stdout = out1 @ out2, outcome = Inl e\<rparr>
                         | (out2, Inr sections) \<Rightarrow>
                             (let story = story @ sections;
                                  out3 = out1 @ out2 @ [''Building PDF...'']
                              in case build fs (path_str output_path) story of
                                   Some e \<Rightarrow> \<lparr>stdout = out3, outcome = Inl e\<rparr>
                                 | None \<Rightarrow>
                                     \<lparr>stdout = out3 @ [CHR 0x0A # ''PDF created successfully: ''
                                                          @ path_str output_path],
                                      outcome = Inr story\<rparr>))))"

section \<open>Reading a story back\<close>

text \<open>
  The texts of the paragraphs of one style, and the texts of the preformatted blocks, in
  the order in which the story holds them.
\<close>

fun paragraphs_of :: "style \<Rightarrow> flowable list \<Rightarrow> string list" where
  "paragraphs_of st [] = []"
| "paragraphs_of st (Paragraph text st' # story) =
     (if st' = st then text # paragraphs_of st story else paragraphs_of st story)"
| "paragraphs_of st (Spacer w h # story) = paragraphs_of st story"
| "paragraphs_of st (PageBreak # story) = paragraphs_of st story"
| "paragraphs_of st (Preformatted text st' # story) = paragraphs_of st story"

fun preformatted_of :: "flowable list \<Rightarrow> string list" where
  "preformatted_of [] = []"
| "preformatted_of (Preformatted text st # story) = text # preformatted_of story"
| "preformatted_of (Paragraph text st # story) = preformatted_of story"
| "preformatted_of (Spacer w h # story) = preformatted_of story"
| "preformatted_of (PageBreak # story) = preformatted_of story"

text \<open>
  The text that a string of markup stands for: the three entities that
  \<^verbatim>\<open>escape_xml\<close> writes are read back, from left to right.
\<close>

function unescape_xml :: "string \<Rightarrow> string" where
  "unescape_xml [] = []"
| "unescape_xml (c # s) =
     (if c = CHR ''&'' \<and> take 4 s = ''amp;'' then CHR ''&'' # unescape_xml (drop 4 s)
      else if c = CHR ''&'' \<and> take 3 s = ''lt;'' then CHR ''<'' # unescape_xml (drop 3 s)
      else if c = CHR ''&'' \<and> take 3 s = ''gt;'' then CHR ''>'' # unescape_xml (drop 3 s)
      else c # unescape_xml s)"
  by pat_completeness auto
termination
  by (relation "measure length") auto

text \<open>
  A string is escaped when it holds neither \<^verbatim>\<open><\<close> nor \<^verbatim>\<open>>\<close> and each of its
  \<^verbatim>\<open>&\<close> starts one of the three entities, which is to say that escaping the text it
  stands for gives the string back.
\<close>

definition escaped :: "string \<Rightarrow> bool" where
  "escaped text \<longleftrightarrow>
     CHR ''<'' \<notin> set text \<and> CHR ''>'' \<notin> set text \<and> escape_xml (unescape_xml text) = text"

text \<open>\<open>precedes xs a b\<close>: some occurrence of \<open>a\<close> in \<open>xs\<close> is before some occurrence of \<open>b\<close>.\<close>

fun precedes :: "'a list \<Rightarrow> 'a \<Rightarrow> 'a \<Rightarrow> bool" where
  "precedes [] a b = False"
| "precedes (x # xs) a b = ((x = a \<and> b \<in> set xs) \<or> precedes xs a b)"

text \<open>
  The story of a run that selected \<open>files\<close> and read \<open>contents\<close> from them, written out:
  the entry of the table of contents and the section of one file, and the whole.
\<close>

definition toc_paragraph :: "nat \<times> path \<Rightarrow> flowable" where
  "toc_paragraph = (\<lambda>(i, filepath).
     Paragraph (escape_xml (str_nat i @ ''. '' @ path_str (drop (length REPO_ROOT) filepath))) TOC)"

definition processing_line :: "nat \<Rightarrow> nat \<times> path \<Rightarrow> string" where
  "processing_line n = (\<lambda>(i, filepath).
     ''Processing ('' @ str_nat i @ ''/'' @ str_nat n @ ''): ''
       @ path_str (drop (length REPO_ROOT) filepath))"

definition file_section :: "path \<times> string \<Rightarrow> flowable list" where
  "file_section = (\<lambda>(filepath, content).
     [Paragraph (escape_xml (''File: '' @ path_str (drop (length REPO_ROOT) filepath))) FileHeader,
      Preformatted (replace CHR 0x09 ''    '' (escape_xml content)) Code,
      PageBreak])"

definition story_of :: "path list \<Rightarrow> string list \<Rightarrow> flowable list" where
  "story_of files contents =
     title_page files @ toc_heading @ map toc_paragraph (zip [1..<1 + length files] files)
       @ [PageBreak] @ concat (map file_section (zip files contents))"

text \<open>
  The tree as the walk sees it: a directory whose listing raises an exception that
  pathlib catches is an empty directory.
\<close>

fun seen :: "(error \<Rightarrow> bool) \<Rightarrow> node \<Rightarrow> node"
  and seen_entries :: "(error \<Rightarrow> bool) \<Rightarrow> (string \<times> node) list \<Rightarrow> (string \<times> node) list"
where
  "seen ignored File = File"
| "seen ignored (Dir (Some e) entries) =
     (if ignored e then Dir None [] else Dir (Some e) entries)"
| "seen ignored (Dir None entries) = Dir None (seen_entries ignored entries)"
| "seen_entries ignored [] = []"
| "seen_entries ignored ((entry_name, child) # rest) =
     (entry_name, seen ignored child) # seen_entries ignored rest"

text \<open>
  The text that the Reader returns for the bytes of a file: the utf-8 text or else the
  latin-1 text, with the newlines of the text mode.
\<close>

definition reader_text :: "codecs \<Rightarrow> byte list \<Rightarrow> string" where
  "reader_text cs bs =
     universal_newlines (case utf_8 cs bs of Some text \<Rightarrow> text | None \<Rightarrow> latin_1 bs)"

section \<open>Example inputs\<close>

text \<open>
  A stand-in for the codecs that is right on ASCII: \<open>utf_8\<close> decodes a sequence of
  bytes below 128 and rejects any other, \<open>cp1252\<close> rejects everything, and
  \<open>utf_8_replace\<close> puts a question mark for every byte from 128 on.
\<close>

definition ascii_codecs :: codecs where
  "ascii_codecs =
     \<lparr>utf_8 = (\<lambda>bs. if list_all (\<lambda>b. b < 128) bs then Some (latin_1 bs) else None),
      cp1252 = (\<lambda>bs. None),
      utf_8_replace = (\<lambda>bs. map (\<lambda>b. if b < 128 then char_of (unat b) else CHR ''?'') bs)\<rparr>"

text \<open>
  The tree of the first scenario: \<^verbatim>\<open>a.py\<close> holding \<^verbatim>\<open>x<y\<close>,
  \<^verbatim>\<open>node_modules/ignored.js\<close>, and \<^verbatim>\<open>b.md\<close> holding \<^verbatim>\<open>hello\<close>.
\<close>

definition scenario_fs :: filesystem where
  "scenario_fs =
     \<lparr>walk = (\<lambda>root. ([[''b.md''], [''node_modules''], [''node_modules'', ''ignored.js''],
                         [''a.py'']], None)),
      is_file = (\<lambda>p. Inr (name p \<noteq> ''node_modules'')),
      read_bytes = (\<lambda>p. if name p = ''a.py'' then Inr [0x78, 0x3C, 0x79]
                         else if name p = ''b.md'' then Inr [0x68, 0x65, 0x6C, 0x6C, 0x6F]
                         else if name p = ''ignored.js'' then Inr [0xE9]
                         else Inl FileNotFoundError),
      build = (\<lambda>out story. None)\<rparr>"

text \<open>The story that the run on this tree builds.\<close>

definition scenario_story :: "flowable list" where
  "scenario_story =
     [Spacer 10 1440,
      Paragraph ''CodeUpgradeEngine'' CustomTitle,
      Paragraph ''Complete Repository Source Code'' CustomSubtitle,
      Paragraph ''Total Files: 2'' CustomSubtitle,
      PageBreak,
      Paragraph ''Table of Contents'' Heading1,
      Spacer 10 144,
      Paragraph ''1. a.py'' TOC,
      Paragraph ''2. b.md'' TOC,
      PageBreak,
      Paragraph ''File: a.py'' FileHeader,
      Preformatted ''x&lt;y'' Code,
      PageBreak,
      Paragraph ''File: b.md'' FileHeader,
      Preformatted ''hello'' Code,
      PageBreak]"

text \<open>The same tree when \<^verbatim>\<open>b.md\<close> cannot be opened, and when the PDF library fails.\<close>

definition read_error_fs :: filesystem where
  "read_error_fs =
     scenario_fs\<lparr>read_bytes := (\<lambda>p. if name p = ''a.py'' then Inr [0x78, 0x3C, 0x79]
                                      else Inl PermissionError)\<rparr>"

definition build_error_fs :: filesystem where
  "build_error_fs = scenario_fs\<lparr>build := (\<lambda>out story. Some OSError)\<rparr>"

text \<open>The tree of the first scenario, listed in another order.\<close>

definition reordered_fs :: filesystem where
  "reordered_fs =
     scenario_fs\<lparr>walk := (\<lambda>root. ([[''a.py''], [''node_modules'', ''ignored.js''], [''b.md''],
                                       [''node_modules'']], None))\<rparr>"

text \<open>A tree with two files whose names differ in case only.\<close>

definition case_fs :: filesystem where
  "case_fs =
     \<lparr>walk = (\<lambda>root. ([[''a.py''], [''A.py'']], None)),
      is_file = (\<lambda>p. Inr True),
      read_bytes = (\<lambda>p. Inr []),
      build = (\<lambda>out story. None)\<rparr>"

text \<open>The same tree, with the two entries listed in the other order.\<close>

definition swapped_fs :: filesystem where
  "swapped_fs = case_fs\<lparr>walk := (\<lambda>root. ([[''A.py''], [''a.py'']], None))\<rparr>"

text \<open>
  Three trees with \<^verbatim>\<open>a.py\<close> and a directory that holds \<^verbatim>\<open>b.md\<close>: the directory
  can be listed, it cannot be listed for lack of permission, and it has gone when it
  is listed. The files are read through \<open>scenario_fs\<close>.
\<close>

definition open_tree :: node where
  "open_tree = Dir None [(''a.py'', File), (''private'', Dir None [(''b.md'', File)])]"

definition locked_tree :: node where
  "locked_tree =
     Dir None [(''a.py'', File), (''private'', Dir (Some PermissionError) [(''b.md'', File)])]"

definition vanished_tree :: node where
  "vanished_tree =
     Dir None [(''a.py'', File), (''private'', Dir (Some FileNotFoundError) [(''b.md'', File)])]"

definition plain_fs :: filesystem where
  "plain_fs = scenario_fs\<lparr>is_file := (\<lambda>p. Inr (name p \<noteq> ''private''))\<rparr>"

text \<open>A tree with one file, whose four bytes are \<^verbatim>\<open>a\<close>, CR, LF and \<^verbatim>\<open>b\<close>.\<close>

definition crlf_fs :: filesystem where
  "crlf_fs =
     \<lparr>walk = (\<lambda>root. ([[''a.txt'']], None)),
      is_file = (\<lambda>p. Inr True),
      read_bytes = (\<lambda>p. Inr [0x61, 0x0D, 0x0A, 0x62]),
      build = (\<lambda>out story. None)\<rparr>"

text \<open>A tree in which nothing passes the filters.\<close>

definition bare_fs :: filesystem where
  "bare_fs =
     \<lparr>walk = (\<lambda>root. ([[''node_modules''], [''node_modules'', ''ignored.js''],
                         [''notes.pdf'']], None)),
      is_file = (\<lambda>p. Inr (name p \<noteq> ''node_modules'')),
      read_bytes = (\<lambda>p. Inl FileNotFoundError),
      build = (\<lambda>out story. None)\<rparr>"

section \<open>The Reader decodes with the first encoding that accepts the bytes\<close>

lemma try_encodings_readable:
  "read_bytes fs filepath = Inr bs \<Longrightarrow>
   try_encodings cs fs encodings filepath =
     Inr (case find (\<lambda>enc. decode cs enc bs \<noteq> None) encodings of
            Some enc \<Rightarrow> universal_newlines (the (decode cs enc bs))
          | None \<Rightarrow> utf_8_replace cs bs)"
  by (induction encodings) (auto split: option.splits)

lemma try_encodings_unreadable:
  "read_bytes fs filepath = Inl e \<Longrightarrow> try_encodings cs fs encodings filepath = Inl e"
  by (cases encodings) auto

lemma read_file_safely_Inl_iff:
  "read_file_safely cs fs filepath = Inl e \<longleftrightarrow> read_bytes fs filepath = Inl e"
proof (cases "read_bytes fs filepath")
  case (Inl e')
  then show ?thesis
    unfolding read_file_safely_def by (simp only: try_encodings_unreadable) simp
next
  case (Inr bs)
  then show ?thesis
    unfolding read_file_safely_def by (simp only: try_encodings_readable) simp
qed

text \<open>
  C3. When the bytes of the file can be read, \<^verbatim>\<open>read_file_safely\<close> returns a text and
  no exception: the text of the first of utf-8, latin-1 and cp1252, in this order, that
  decodes the bytes, and the text of the decoding with replacement characters when all
  three raise.
\<close>

theorem read_file_safely_first_decodable:
  assumes "read_bytes fs filepath = Inr bs"
  shows "read_file_safely cs fs filepath =
           Inr (case decode cs UTF_8 bs of
                  Some text \<Rightarrow> universal_newlines text
                | None \<Rightarrow>
                    (case decode cs LATIN_1 bs of
                       Some text \<Rightarrow> universal_newlines text
                     | None \<Rightarrow>
                         (case decode cs CP1252 bs of
                            Some text \<Rightarrow> universal_newlines text
                          | None \<Rightarrow> utf_8_replace cs bs)))"
  using assms by (simp add: read_file_safely_def split: option.splits)

theorem read_file_safely_first_decodable_witness:
  "read_bytes scenario_fs (REPO_ROOT @ [''a.py'']) = Inr [0x78, 0x3C, 0x79] \<and>
   read_file_safely ascii_codecs scenario_fs (REPO_ROOT @ [''a.py'']) = Inr ''x<y''"
proof -
  have readable: "read_bytes scenario_fs (REPO_ROOT @ [''a.py'']) = Inr [0x78, 0x3C, 0x79]"
    by code_simp
  have "(case decode ascii_codecs UTF_8 [0x78, 0x3C, 0x79] of
           Some text \<Rightarrow> universal_newlines text
         | None \<Rightarrow>
             (case decode ascii_codecs LATIN_1 [0x78, 0x3C, 0x79] of
                Some text \<Rightarrow> universal_newlines text
              | None \<Rightarrow>
                  (case decode ascii_codecs CP1252 [0x78, 0x3C, 0x79] of
                     Some text \<Rightarrow> universal_newlines text
                   | None \<Rightarrow> utf_8_replace ascii_codecs [0x78, 0x3C, 0x79]))) = ''x<y''"
    by code_simp
  with read_file_safely_first_decodable [OF readable, of ascii_codecs] readable
  show ?thesis by simp
qed

text \<open>
  C10. Latin-1 decodes every sequence of bytes, so \<^verbatim>\<open>read_file_safely\<close> returns in the
  first or in the second round of its loop: its result is the utf-8 text or else the
  latin-1 text, and neither cp1252 nor the decoding with replacement characters has any
  part in it.
\<close>

theorem latin_1_always_decodes:
  "decode cs LATIN_1 bs \<noteq> None \<and>
   read_file_safely cs fs filepath =
     (case read_bytes fs filepath of
        Inl e \<Rightarrow> Inl e
      | Inr bs \<Rightarrow>
          Inr (universal_newlines
                 (case utf_8 cs bs of Some text \<Rightarrow> text | None \<Rightarrow> latin_1 bs))) \<and>
   read_file_safely (cs\<lparr>cp1252 := other_cp1252, utf_8_replace := other_replace\<rparr>) fs filepath =
     read_file_safely cs fs filepath"
  by (simp add: read_file_safely_def decode_def split: sum.splits option.splits)

theorem latin_1_always_decodes_witness:
  "read_file_safely ascii_codecs scenario_fs (REPO_ROOT @ [''node_modules'', ''ignored.js'']) =
     Inr [CHR 0xE9]"
proof -
  have "(case read_bytes scenario_fs (REPO_ROOT @ [''node_modules'', ''ignored.js'']) of
           Inl e \<Rightarrow> Inl e
         | Inr bs \<Rightarrow>
             Inr (universal_newlines
                    (case utf_8 ascii_codecs bs of Some text \<Rightarrow> text | None \<Rightarrow> latin_1 bs))) =
        Inr [CHR 0xE9]"
    by code_simp
  with latin_1_always_decodes
         [of ascii_codecs "[]" scenario_fs "REPO_ROOT @ [''node_modules'', ''ignored.js'']"]
  show ?thesis by simp
qed

section \<open>The Selector keeps the files that pass the filters\<close>

lemma collect_Inr_iff:
  "collect fs ps = Inr files \<longleftrightarrow>
     (\<forall>p\<in>set ps. \<exists>k. keep fs p = Inr k) \<and> files = filter (\<lambda>p. keep fs p = Inr True) ps"
proof (induction ps arbitrary: files)
  case Nil
  show ?case by auto
next
  case (Cons p ps)
  show ?case
  proof (cases "keep fs p")
    case (Inl e)
    then show ?thesis by auto
  next
    case (Inr k)
    then show ?thesis
      using Cons.IH by (cases "collect fs ps") (auto split: if_splits)
  qed
qed

lemma keep_True_iff:
  "keep fs filepath = Inr True \<longleftrightarrow>
     is_file fs filepath = Inr True \<and>
     (\<forall>part\<in>set filepath. part \<notin> EXCLUDE_DIRS) \<and>
     (name filepath \<in> INCLUDE_FILES \<or> lower (suffix filepath) \<in> INCLUDE_EXTENSIONS) \<and>
     name filepath \<noteq> ''repo_to_pdf.py'' \<and> suffix filepath \<noteq> ''.pdf'' \<and>
     name filepath \<noteq> ''package-lock.json''"
  by (cases "is_file fs filepath")
     (auto simp: keep_def should_include_file_def list_ex_iff)

lemma get_all_files_Inr_iff:
  "get_all_files fs root = Inr files \<longleftrightarrow>
     (\<forall>p\<in>set (fst (rglob fs root)). \<exists>k. keep fs p = Inr k) \<and>
     snd (rglob fs root) = None \<and>
     files = sort_key sort_key_of (filter (\<lambda>p. keep fs p = Inr True) (fst (rglob fs root)))"
proof (cases "collect fs (fst (rglob fs root))")
  case (Inl e)
  then have "\<not> (\<forall>p\<in>set (fst (rglob fs root)). \<exists>k. keep fs p = Inr k)"
    using collect_Inr_iff [of fs "fst (rglob fs root)"] by auto
  with Inl show ?thesis by (simp add: get_all_files_def)
next
  case (Inr kept)
  then show ?thesis
    using collect_Inr_iff [of fs "fst (rglob fs root)" kept]
    by (cases "snd (rglob fs root)") (auto simp: get_all_files_def)
qed

lemma keep_read_bytes: "keep (fs\<lparr>read_bytes := contents\<rparr>) p = keep fs p"
  by (simp add: keep_def)

lemma collect_read_bytes: "collect (fs\<lparr>read_bytes := contents\<rparr>) ps = collect fs ps"
  by (induction ps) (simp_all add: keep_read_bytes split: sum.splits)

lemma get_all_files_read_bytes:
  "get_all_files (fs\<lparr>read_bytes := contents\<rparr>) root = get_all_files fs root"
  by (simp add: get_all_files_def rglob_def collect_read_bytes split: sum.splits)

lemma scenario_files:
  "get_all_files scenario_fs REPO_ROOT = Inr [REPO_ROOT @ [''a.py''], REPO_ROOT @ [''b.md'']]"
  by code_simp

text \<open>
  C1. When \<^verbatim>\<open>get_all_files\<close> returns, a path is in its list if and only if the walk
  yielded it, it is a file, no part of it is an excluded directory name, its name is in
  the list of exact names or its lower-cased suffix is in the list of extensions, and it
  is none of \<^verbatim>\<open>repo_to_pdf.py\<close>, a path with the suffix \<^verbatim>\<open>.pdf\<close>, and
  \<^verbatim>\<open>package-lock.json\<close>. What the files hold plays no part: with any other contents
  the list is the same.
\<close>

theorem get_all_files_selects:
  assumes "get_all_files fs root = Inr files"
  shows "(filepath \<in> set files \<longleftrightarrow>
            filepath \<in> set (fst (rglob fs root)) \<and> is_file fs filepath = Inr True \<and>
            (\<forall>part\<in>set filepath. part \<notin> EXCLUDE_DIRS) \<and>
            (name filepath \<in> INCLUDE_FILES \<or> lower (suffix filepath) \<in> INCLUDE_EXTENSIONS) \<and>
            name filepath \<noteq> ''repo_to_pdf.py'' \<and> suffix filepath \<noteq> ''.pdf'' \<and>
            name filepath \<noteq> ''package-lock.json'') \<and>
         get_all_files (fs\<lparr>read_bytes := contents\<rparr>) root = Inr files"
proof -
  have "files = sort_key sort_key_of (filter (\<lambda>p. keep fs p = Inr True) (fst (rglob fs root)))"
    using assms by (simp add: get_all_files_Inr_iff)
  then have "filepath \<in> set files \<longleftrightarrow>
               filepath \<in> set (fst (rglob fs root)) \<and> keep fs filepath = Inr True"
    by auto
  then show ?thesis
    using assms by (simp add: keep_True_iff get_all_files_read_bytes)
qed

theorem get_all_files_selects_witness:
  "get_all_files scenario_fs REPO_ROOT = Inr [REPO_ROOT @ [''a.py''], REPO_ROOT @ [''b.md'']] \<and>
   REPO_ROOT @ [''a.py''] \<in> set (fst (rglob scenario_fs REPO_ROOT)) \<and>
   is_file scenario_fs (REPO_ROOT @ [''a.py'']) = Inr True \<and>
   \<not> (\<exists>part\<in>set (REPO_ROOT @ [''a.py'']). part \<in> EXCLUDE_DIRS) \<and>
   (name (REPO_ROOT @ [''a.py'']) \<in> INCLUDE_FILES \<or>
    lower (suffix (REPO_ROOT @ [''a.py''])) \<in> INCLUDE_EXTENSIONS) \<and>
   name (REPO_ROOT @ [''a.py'']) \<noteq> ''repo_to_pdf.py'' \<and>
   suffix (REPO_ROOT @ [''a.py'']) \<noteq> ''.pdf'' \<and>
   name (REPO_ROOT @ [''a.py'']) \<noteq> ''package-lock.json'' \<and>
   (\<exists>part\<in>set (REPO_ROOT @ [''node_modules'', ''ignored.js'']). part \<in> EXCLUDE_DIRS) \<and>
   REPO_ROOT @ [''node_modules'', ''ignored.js''] \<notin>
     set [REPO_ROOT @ [''a.py''], REPO_ROOT @ [''b.md'']] \<and>
   get_all_files (scenario_fs\<lparr>read_bytes := (\<lambda>p. Inl PermissionError)\<rparr>) REPO_ROOT =
     Inr [REPO_ROOT @ [''a.py''], REPO_ROOT @ [''b.md'']]"
proof -
  have excluded:
    "\<exists>part\<in>set (REPO_ROOT @ [''node_modules'', ''ignored.js'']). part \<in> EXCLUDE_DIRS"
    by (simp add: EXCLUDE_DIRS_def)
  from get_all_files_selects
         [OF scenario_files, of "REPO_ROOT @ [''a.py'']" "\<lambda>p. Inl PermissionError"]
       get_all_files_selects
         [OF scenario_files, of "REPO_ROOT @ [''node_modules'', ''ignored.js'']"
            "\<lambda>p. Inl PermissionError"]
       scenario_files excluded
  show ?thesis by simp
qed

section \<open>Escaping\<close>

lemma replace_Nil: "replace old new [] = []"
  by (simp add: replace_def)

lemma replace_Cons:
  "replace old new (c # s) = (if c = old then new else [c]) @ replace old new s"
  by (simp add: replace_def)

lemma replace_append:
  "replace old new (u @ t) = replace old new u @ replace old new t"
  by (simp add: replace_def)

lemma replace_absent: "old \<notin> set s \<Longrightarrow> replace old new s = s"
  by (induction s) (auto simp: replace_Nil replace_Cons)

lemma escape_xml_Nil: "escape_xml [] = []"
  by (simp add: escape_xml_def replace_Nil)

lemma escape_xml_Cons:
  "escape_xml (c # s) =
     (if c = CHR ''&'' then ''&amp;''
      else if c = CHR ''<'' then ''&lt;''
      else if c = CHR ''>'' then ''&gt;''
      else [c]) @ escape_xml s"
  by (simp add: escape_xml_def Let_def replace_Cons replace_append replace_Nil)

lemma escape_xml_append: "escape_xml (u @ t) = escape_xml u @ escape_xml t"
  by (simp add: escape_xml_def Let_def replace_append)

lemma unescape_escape: "unescape_xml (escape_xml s) = s"
  by (induction s) (simp_all add: escape_xml_Nil escape_xml_Cons)

lemma escape_xml_plain:
  "CHR ''&'' \<notin> set s \<Longrightarrow> CHR ''<'' \<notin> set s \<Longrightarrow> CHR ''>'' \<notin> set s \<Longrightarrow>
   escape_xml s = s"
  by (simp add: escape_xml_def Let_def replace_absent)

lemma escape_xml_no_angle:
  "CHR ''<'' \<notin> set (escape_xml s) \<and> CHR ''>'' \<notin> set (escape_xml s)"
  by (induction s) (simp_all add: escape_xml_Nil escape_xml_Cons)

lemma escaped_escape_xml: "escaped (escape_xml s)"
  by (simp add: escaped_def unescape_escape escape_xml_no_angle)

lemma replace_tab_escape_xml:
  "replace CHR 0x09 ''    '' (escape_xml s) = escape_xml (replace CHR 0x09 ''    '' s)"
  by (induction s)
     (simp_all add: escape_xml_Nil escape_xml_Cons escape_xml_append replace_Nil replace_Cons
        replace_append)

section \<open>The two loops of the Renderer\<close>

lemma rglob_under_root: "p \<in> set (fst (rglob fs root)) \<Longrightarrow> take (length root) p = root"
  by (auto simp: rglob_def)

lemma get_all_files_under_root:
  "get_all_files fs root = Inr files \<Longrightarrow> p \<in> set files \<Longrightarrow> take (length root) p = root"
  by (auto simp: get_all_files_Inr_iff rglob_under_root)

lemma relative_to_under:
  "take (length root) p = root \<Longrightarrow> relative_to p root = Inr (drop (length root) p)"
  by (simp add: relative_to_def)

lemma upt_shift: "[i..<i + length (p # ps)] = i # [Suc i..<Suc i + length ps]"
  by (simp add: upt_conv_Cons del: upt_Suc)

lemma toc_entries_closed:
  "\<forall>p\<in>set files. take (length REPO_ROOT) p = REPO_ROOT \<Longrightarrow>
   toc_entries i files = Inr (map toc_paragraph (zip [i..<i + length files] files))"
proof (induction files arbitrary: i)
  case Nil
  show ?case by simp
next
  case (Cons p ps)
  from Cons show ?case
    by (simp only: upt_shift) (simp add: relative_to_under toc_paragraph_def Let_def)
qed

lemma file_sections_stdout:
  "\<forall>p\<in>set files. take (length REPO_ROOT) p = REPO_ROOT \<Longrightarrow>
   map (read_file_safely cs fs) files = map Inr contents \<Longrightarrow>
   file_sections cs fs n i files =
     (map (processing_line n) (zip [i..<i + length files] files),
      Inr (concat (map file_section (zip files contents))))"
proof (induction files arbitrary: i contents)
  case Nil
  then show ?case by simp
next
  case (Cons p ps)
  from Cons.prems(2) obtain c cs' where contents: "contents = c # cs'"
    and c: "read_file_safely cs fs p = Inr c"
    and rest: "map (read_file_safely cs fs) ps = map Inr cs'"
    by (cases contents) auto
  have "file_sections cs fs n (Suc i) ps =
          (map (processing_line n) (zip [Suc i..<Suc i + length ps] ps),
           Inr (concat (map file_section (zip ps cs'))))"
    using Cons.IH [OF _ rest] Cons.prems(1) by simp
  then show ?case
    using Cons.prems(1) c contents
    by (simp only: upt_shift)
       (simp add: relative_to_under processing_line_def file_section_def Let_def)
qed

lemma file_sections_Inr:
  "\<forall>p\<in>set files. take (length REPO_ROOT) p = REPO_ROOT \<Longrightarrow>
   snd (file_sections cs fs n i files) = Inr sections \<Longrightarrow>
   \<exists>contents. map (read_file_safely cs fs) files = map Inr contents"
proof (induction files arbitrary: i sections)
  case Nil
  then show ?case by simp
next
  case (Cons p ps)
  from Cons.prems obtain c where c: "read_file_safely cs fs p = Inr c"
    by (cases "read_file_safely cs fs p") (auto simp: relative_to_under Let_def)
  from Cons.prems c obtain secs where "snd (file_sections cs fs n (Suc i) ps) = Inr secs"
    by (cases "file_sections cs fs n (Suc i) ps"; cases "snd (file_sections cs fs n (Suc i) ps)")
       (auto simp: relative_to_under Let_def)
  with Cons.IH [of "Suc i" secs] Cons.prems(1) obtain cs' where
    "map (read_file_safely cs fs) ps = map Inr cs'" by auto
  with c have "map (read_file_safely cs fs) (p # ps) = map Inr (c # cs')" by simp
  then show ?case by blast
qed

section \<open>The outcome of a run\<close>

lemma file_sections_Inl:
  "\<forall>p\<in>set (pre @ [p0]). take (length REPO_ROOT) p = REPO_ROOT \<Longrightarrow>
   map (read_file_safely cs fs) pre = map Inr contents \<Longrightarrow>
   read_file_safely cs fs p0 = Inl e \<Longrightarrow>
   snd (file_sections cs fs n i (pre @ p0 # post)) = Inl e"
proof (induction pre arbitrary: i contents)
  case Nil
  then show ?case by (simp add: relative_to_under Let_def)
next
  case (Cons p ps)
  from Cons.prems(2) obtain c cs' where c: "read_file_safely cs fs p = Inr c"
    and rest: "map (read_file_safely cs fs) ps = map Inr cs'"
    by (cases contents) auto
  have "snd (file_sections cs fs n (Suc i) (ps @ p0 # post)) = Inl e"
    using Cons.IH [OF _ rest Cons.prems(3)] Cons.prems(1) by simp
  then show ?case
    using Cons.prems(1) c
    by (cases "file_sections cs fs n (Suc i) (ps @ p0 # post)")
       (simp add: relative_to_under Let_def)
qed

lemma main_selected:
  assumes "get_all_files fs REPO_ROOT = Inr files"
  shows "outcome (main cs fs) =
           (case snd (file_sections cs fs (length files) 1 files) of
              Inl e \<Rightarrow> Inl e
            | Inr sections \<Rightarrow>
                (let story = title_page files @ toc_heading
                               @ map toc_paragraph (zip [1..<1 + length files] files)
                               @ [PageBreak] @ sections
                 in case build fs (path_str output_path) story of
                      Some e \<Rightarrow> Inl e
                    | None \<Rightarrow> Inr story))"
proof -
  have under: "\<forall>p\<in>set files. take (length REPO_ROOT) p = REPO_ROOT"
    using get_all_files_under_root [OF assms] by blast
  show ?thesis
    using assms toc_entries_closed [OF under, of 1]
    by (cases "file_sections cs fs (length files) 1 files")
       (simp add: main_def Let_def split: sum.splits option.splits)
qed

lemma main_not_selected:
  "get_all_files fs REPO_ROOT = Inl e \<Longrightarrow> outcome (main cs fs) = Inl e"
  by (simp add: main_def)

lemma main_all_read:
  assumes "get_all_files fs REPO_ROOT = Inr files"
    and "map (read_file_safely cs fs) files = map Inr contents"
  shows "outcome (main cs fs) =
           (case build fs (path_str output_path) (story_of files contents) of
              Some e \<Rightarrow> Inl e
            | None \<Rightarrow> Inr (story_of files contents))"
proof -
  have under: "\<forall>p\<in>set files. take (length REPO_ROOT) p = REPO_ROOT"
    using get_all_files_under_root [OF assms(1)] by blast
  have "snd (file_sections cs fs (length files) 1 files) =
          Inr (concat (map file_section (zip files contents)))"
    using file_sections_stdout [OF under assms(2)] by simp
  then show ?thesis
    by (simp add: main_selected [OF assms(1)] story_of_def Let_def del: upt_Suc
          cong: option.case_cong)
qed

lemma main_read_failed:
  assumes "get_all_files fs REPO_ROOT = Inr files"
    and "\<nexists>contents. map (read_file_safely cs fs) files = map Inr contents"
  shows "\<exists>e. outcome (main cs fs) = Inl e"
proof -
  have under: "\<forall>p\<in>set files. take (length REPO_ROOT) p = REPO_ROOT"
    using get_all_files_under_root [OF assms(1)] by blast
  have "\<nexists>sections. snd (file_sections cs fs (length files) 1 files) = Inr sections"
    using file_sections_Inr [OF under] assms(2) by blast
  then obtain e where "snd (file_sections cs fs (length files) 1 files) = Inl e"
    by (cases "snd (file_sections cs fs (length files) 1 files)") auto
  then have "outcome (main cs fs) = Inl e"
    by (simp add: main_selected [OF assms(1)])
  then show ?thesis by blast
qed

lemma main_Inr_iff:
  "outcome (main cs fs) = Inr story \<longleftrightarrow>
     (\<exists>files contents.
        get_all_files fs REPO_ROOT = Inr files \<and>
        map (read_file_safely cs fs) files = map Inr contents \<and>
        story = story_of files contents \<and>
        build fs (path_str output_path) story = None)"
  (is "?lhs \<longleftrightarrow> ?rhs")
proof
  assume ?lhs
  then obtain files where files: "get_all_files fs REPO_ROOT = Inr files"
    using main_not_selected [of fs _ cs] by (cases "get_all_files fs REPO_ROOT") auto
  with \<open>?lhs\<close> obtain contents where
    contents: "map (read_file_safely cs fs) files = map Inr contents"
    using main_read_failed [OF files, of cs] by auto
  from \<open>?lhs\<close> main_all_read [OF files contents]
  have "story = story_of files contents \<and> build fs (path_str output_path) story = None"
    by (cases "build fs (path_str output_path) (story_of files contents)") auto
  with files contents show ?rhs by blast
next
  assume ?rhs
  then obtain files contents where
    "get_all_files fs REPO_ROOT = Inr files"
    "map (read_file_safely cs fs) files = map Inr contents"
    "story = story_of files contents" "build fs (path_str output_path) story = None"
    by blast
  then show ?lhs
    using main_all_read [of fs files cs contents] by simp
qed

section \<open>What the story of a run holds\<close>

lemma paragraphs_of_append:
  "paragraphs_of st (xs @ ys) = paragraphs_of st xs @ paragraphs_of st ys"
  by (induction st xs rule: paragraphs_of.induct) simp_all

lemma preformatted_of_append:
  "preformatted_of (xs @ ys) = preformatted_of xs @ preformatted_of ys"
  by (induction xs rule: preformatted_of.induct) simp_all

lemma paragraphs_of_toc_paragraphs:
  "paragraphs_of st (map toc_paragraph ips) =
     (if st = TOC
      then map (\<lambda>(i, p). escape_xml (str_nat i @ ''. '' @ path_str (drop (length REPO_ROOT) p))) ips
      else [])"
  by (induction ips) (auto simp: toc_paragraph_def)

lemma preformatted_of_toc_paragraphs: "preformatted_of (map toc_paragraph ips) = []"
  by (induction ips) (auto simp: toc_paragraph_def)

lemma paragraphs_of_sections:
  "length contents = length files \<Longrightarrow>
   paragraphs_of st (concat (map file_section (zip files contents))) =
     (if st = FileHeader
      then map (\<lambda>p. escape_xml (''File: '' @ path_str (drop (length REPO_ROOT) p))) files
      else [])"
  by (induction files contents rule: list_induct2') (auto simp: file_section_def)

lemma preformatted_of_sections:
  "length contents = length files \<Longrightarrow>
   preformatted_of (concat (map file_section (zip files contents))) =
     map (\<lambda>content. replace CHR 0x09 ''    '' (escape_xml content)) contents"
  by (induction files contents rule: list_induct2') (auto simp: file_section_def)

lemma toc_of_story:
  "paragraphs_of TOC (story_of files contents) =
     map (\<lambda>(i, p). escape_xml (str_nat i @ ''. '' @ path_str (drop (length REPO_ROOT) p)))
       (zip [1..<1 + length files] files)"
  if "length contents = length files"
  using that
  by (simp add: story_of_def paragraphs_of_append paragraphs_of_toc_paragraphs
        paragraphs_of_sections title_page_def toc_heading_def del: upt_Suc)

lemma headers_of_story:
  "paragraphs_of FileHeader (story_of files contents) =
     map (\<lambda>p. escape_xml (''File: '' @ path_str (drop (length REPO_ROOT) p))) files"
  if "length contents = length files"
  using that
  by (simp add: story_of_def paragraphs_of_append paragraphs_of_toc_paragraphs
        paragraphs_of_sections title_page_def toc_heading_def del: upt_Suc)

lemma bodies_of_story:
  "preformatted_of (story_of files contents) =
     map (\<lambda>content. replace CHR 0x09 ''    '' (escape_xml content)) contents"
  if "length contents = length files"
  using that
  by (simp add: story_of_def preformatted_of_append preformatted_of_toc_paragraphs
        preformatted_of_sections title_page_def toc_heading_def del: upt_Suc)

lemma read_all_length:
  "map (read_file_safely cs fs) files = map Inr contents \<Longrightarrow> length contents = length files"
  using map_eq_imp_length_eq by fastforce

section \<open>The table of contents\<close>

lemma scenario_run: "outcome (main ascii_codecs scenario_fs) = Inr scenario_story"
  by code_simp

text \<open>
  C8. In the story of a run that succeeds, the table of contents has one paragraph for
  each selected file, in the order of the sorted list: the paragraph at position \<open>i\<close>,
  counted from 0, is the markup of \<open>i + 1\<close>, a dot, a space and the path of the file
  relative to the root, and stands for exactly that string.
\<close>

theorem toc_lists_every_file:
  assumes "outcome (main cs fs) = Inr story"
  shows "\<exists>files.
           get_all_files fs REPO_ROOT = Inr files \<and>
           sorted (map sort_key_of files) \<and>
           length (paragraphs_of TOC story) = length files \<and>
           (\<forall>i<length files.
              files ! i = REPO_ROOT @ drop (length REPO_ROOT) (files ! i) \<and>
              paragraphs_of TOC story ! i =
                escape_xml (str_nat (i + 1) @ ''. ''
                              @ path_str (drop (length REPO_ROOT) (files ! i))) \<and>
              unescape_xml (paragraphs_of TOC story ! i) =
                str_nat (i + 1) @ ''. '' @ path_str (drop (length REPO_ROOT) (files ! i)))"
proof -
  from assms obtain files contents where
    files: "get_all_files fs REPO_ROOT = Inr files" and
    contents: "map (read_file_safely cs fs) files = map Inr contents" and
    story: "story = story_of files contents"
    by (auto simp: main_Inr_iff)
  have toc: "paragraphs_of TOC story =
               map (\<lambda>(i, p). escape_xml (str_nat i @ ''. ''
                                           @ path_str (drop (length REPO_ROOT) p)))
                 (zip [1..<1 + length files] files)"
    using toc_of_story [OF read_all_length [OF contents]] story by simp
  have sorted: "sorted (map sort_key_of files)"
    using files by (simp add: get_all_files_Inr_iff)
  have under: "files ! i = REPO_ROOT @ drop (length REPO_ROOT) (files ! i)"
    if "i < length files" for i
    using get_all_files_under_root [OF files, of "files ! i"] that
    by (metis append_take_drop_id nth_mem)
  have len: "length (paragraphs_of TOC story) = length files"
    by (simp add: toc del: upt_Suc)
  have entry: "paragraphs_of TOC story ! i =
                 escape_xml (str_nat (i + 1) @ ''. ''
                               @ path_str (drop (length REPO_ROOT) (files ! i)))"
    if "i < length files" for i
    using that by (simp add: toc del: upt_Suc)
  show ?thesis
  proof (intro exI [of _ files] conjI allI impI)
    fix i assume "i < length files"
    then show "unescape_xml (paragraphs_of TOC story ! i) =
                 str_nat (i + 1) @ ''. '' @ path_str (drop (length REPO_ROOT) (files ! i))"
      by (simp only: entry unescape_escape)
  qed (use files sorted len under entry in blast)+
qed

theorem toc_lists_every_file_witness:
  "outcome (main ascii_codecs scenario_fs) = Inr scenario_story \<and>
   paragraphs_of TOC scenario_story = [''1. a.py'', ''2. b.md''] \<and>
   (\<exists>files.
      get_all_files scenario_fs REPO_ROOT = Inr files \<and>
      sorted (map sort_key_of files) \<and>
      length (paragraphs_of TOC scenario_story) = length files \<and>
      (\<forall>i<length files.
         files ! i = REPO_ROOT @ drop (length REPO_ROOT) (files ! i) \<and>
         paragraphs_of TOC scenario_story ! i =
           escape_xml (str_nat (i + 1) @ ''. ''
                         @ path_str (drop (length REPO_ROOT) (files ! i))) \<and>
         unescape_xml (paragraphs_of TOC scenario_story ! i) =
           str_nat (i + 1) @ ''. '' @ path_str (drop (length REPO_ROOT) (files ! i))))"
proof -
  have "paragraphs_of TOC scenario_story = [''1. a.py'', ''2. b.md'']"
    by (simp add: scenario_story_def)
  with scenario_run toc_lists_every_file [OF scenario_run] show ?thesis
    by blast
qed

section \<open>Escaping in the story\<close>

text \<open>
  C5. In the story of a run that succeeds, every paragraph of the table of contents, every
  file header and every preformatted body is escaped: it holds neither \<^verbatim>\<open><\<close> nor
  \<^verbatim>\<open>>\<close>, and each \<^verbatim>\<open>&\<close> in it starts one of the entities of \<^verbatim>\<open>escape_xml\<close>.
\<close>

theorem story_texts_escaped:
  assumes "outcome (main cs fs) = Inr story"
  shows "\<forall>t \<in> set (paragraphs_of TOC story) \<union> set (paragraphs_of FileHeader story)
                \<union> set (preformatted_of story). escaped t"
proof -
  from assms obtain files contents where
    contents: "map (read_file_safely cs fs) files = map Inr contents" and
    story: "story = story_of files contents"
    by (auto simp: main_Inr_iff)
  note len = read_all_length [OF contents]
  have "escaped t" if "t \<in> set (paragraphs_of TOC story)" for t
    using that unfolding story toc_of_story [OF len] by (auto simp: escaped_escape_xml)
  moreover have "escaped t" if "t \<in> set (paragraphs_of FileHeader story)" for t
    using that unfolding story headers_of_story [OF len] by (auto simp: escaped_escape_xml)
  moreover have "escaped t" if "t \<in> set (preformatted_of story)" for t
    using that unfolding story bodies_of_story [OF len]
    by (auto simp: replace_tab_escape_xml escaped_escape_xml)
  ultimately show ?thesis by blast
qed

theorem story_texts_escaped_witness:
  "outcome (main ascii_codecs scenario_fs) = Inr scenario_story \<and>
   preformatted_of scenario_story = [''x&lt;y'', ''hello''] \<and>
   escaped ''x&lt;y'' \<and> \<not> escaped ''x<y'' \<and> \<not> escaped ''x&y'' \<and>
   list_all escaped
     (paragraphs_of TOC scenario_story @ paragraphs_of FileHeader scenario_story
        @ preformatted_of scenario_story)"
proof -
  have bodies: "preformatted_of scenario_story = [''x&lt;y'', ''hello'']"
    by (simp add: scenario_story_def)
  have "\<not> escaped ''x<y''" "\<not> escaped ''x&y''"
    by code_simp+
  with bodies scenario_run story_texts_escaped [OF scenario_run] show ?thesis
    by (simp add: list_all_iff)
qed

lemma read_file_safely_reader_text:
  "read_file_safely cs fs filepath =
     (case read_bytes fs filepath of Inl e \<Rightarrow> Inl e | Inr bs \<Rightarrow> Inr (reader_text cs bs))"
  by (simp add: read_file_safely_def decode_def reader_text_def
        split: sum.splits option.splits)

lemma read_all_bytes:
  "map (read_file_safely cs fs) files = map Inr contents \<Longrightarrow>
   \<exists>bss. map (read_bytes fs) files = map Inr bss \<and> contents = map (reader_text cs) bss"
proof (induction files arbitrary: contents)
  case Nil
  then show ?case by simp
next
  case (Cons p ps)
  from Cons.prems obtain c cs' where contents: "contents = c # cs'"
    and c: "read_file_safely cs fs p = Inr c"
    and rest: "map (read_file_safely cs fs) ps = map Inr cs'"
    by (cases contents) auto
  from c obtain bs where bs: "read_bytes fs p = Inr bs" and decoded: "c = reader_text cs bs"
    by (cases "read_bytes fs p") (auto simp: read_file_safely_reader_text)
  from Cons.IH [OF rest] obtain bss where
    "map (read_bytes fs) ps = map Inr bss" "cs' = map (reader_text cs) bss"
    by blast
  with bs decoded contents have
    "map (read_bytes fs) (p # ps) = map Inr (bs # bss) \<and>
     contents = map (reader_text cs) (bs # bss)"
    by simp
  then show ?case by blast
qed

text \<open>
  C4, as it is stated, fails on a file with a carriage return. The file is opened in text
  mode, which turns CR LF and a lone CR into LF before the program sees the text: the
  four bytes \<^verbatim>\<open>a\<close>, CR, LF, \<^verbatim>\<open>b\<close> hold none of \<^verbatim>\<open>&\<close>, \<^verbatim>\<open><\<close>, \<^verbatim>\<open>>\<close> and no
  tab, they decode to the same four characters, and the body of the section is
  \<^verbatim>\<open>a\<close>, LF, \<^verbatim>\<open>b\<close>.
\<close>

theorem escaping_round_trip_counterexample:
  "read_bytes crlf_fs (REPO_ROOT @ [''a.txt'']) = Inr [0x61, 0x0D, 0x0A, 0x62] \<and>
   utf_8 ascii_codecs [0x61, 0x0D, 0x0A, 0x62] =
     Some [CHR ''a'', CHR 0x0D, CHR 0x0A, CHR ''b''] \<and>
   latin_1 [0x61, 0x0D, 0x0A, 0x62] = [CHR ''a'', CHR 0x0D, CHR 0x0A, CHR ''b''] \<and>
   escape_xml [CHR ''a'', CHR 0x0D, CHR 0x0A, CHR ''b''] =
     [CHR ''a'', CHR 0x0D, CHR 0x0A, CHR ''b''] \<and>
   replace CHR 0x09 ''    '' [CHR ''a'', CHR 0x0D, CHR 0x0A, CHR ''b''] =
     [CHR ''a'', CHR 0x0D, CHR 0x0A, CHR ''b''] \<and>
   map_sum id preformatted_of (outcome (main ascii_codecs crlf_fs)) =
     Inr [[CHR ''a'', CHR 0x0A, CHR ''b'']] \<and>
   [CHR ''a'', CHR 0x0A, CHR ''b''] \<noteq> [CHR ''a'', CHR 0x0D, CHR 0x0A, CHR ''b'']"
  by code_simp

text \<open>
  C4, as the code has it. Escaping can be undone: reading the entities back gives the
  text that was escaped, and on a text with none of \<^verbatim>\<open>&\<close>, \<^verbatim>\<open><\<close> and \<^verbatim>\<open>>\<close>
  escaping changes nothing. In the story of a run that succeeds, the body of each
  section comes from the bytes of the file in four steps and no other: the bytes are
  decoded, as utf-8 or else as latin-1; CR LF and a lone CR become LF; the text is
  escaped; each tab becomes four spaces. So the body of a file whose text has none of
  the three characters is that text, with the newlines of the text mode and the tabs
  replaced.
\<close>

theorem escaping_round_trip:
  "unescape_xml (escape_xml s) = s \<and>
   (CHR ''&'' \<notin> set s \<and> CHR ''<'' \<notin> set s \<and> CHR ''>'' \<notin> set s \<longrightarrow> escape_xml s = s) \<and>
   (outcome (main cs fs) = Inr story \<longrightarrow>
      (\<exists>files bss.
         get_all_files fs REPO_ROOT = Inr files \<and>
         map (read_bytes fs) files = map Inr bss \<and>
         preformatted_of story =
           map (\<lambda>bs. replace CHR 0x09 ''    ''
                       (escape_xml
                          (universal_newlines
                             (case utf_8 cs bs of Some text \<Rightarrow> text | None \<Rightarrow> latin_1 bs))))
             bss \<and>
         (\<forall>i<length bss.
            CHR ''&'' \<notin> set (reader_text cs (bss ! i)) \<and>
            CHR ''<'' \<notin> set (reader_text cs (bss ! i)) \<and>
            CHR ''>'' \<notin> set (reader_text cs (bss ! i)) \<longrightarrow>
            preformatted_of story ! i =
              replace CHR 0x09 ''    ''
                (universal_newlines
                   (case utf_8 cs (bss ! i) of Some text \<Rightarrow> text
                    | None \<Rightarrow> latin_1 (bss ! i))))))"
proof (intro conjI impI)
  show "unescape_xml (escape_xml s) = s"
    by (rule unescape_escape)
  show "escape_xml s = s"
    if "CHR ''&'' \<notin> set s \<and> CHR ''<'' \<notin> set s \<and> CHR ''>'' \<notin> set s"
    using that by (simp add: escape_xml_plain)
  assume "outcome (main cs fs) = Inr story"
  then obtain files contents where
    files: "get_all_files fs REPO_ROOT = Inr files" and
    contents: "map (read_file_safely cs fs) files = map Inr contents" and
    story: "story = story_of files contents"
    by (auto simp: main_Inr_iff)
  from read_all_bytes [OF contents] obtain bss where
    bss: "map (read_bytes fs) files = map Inr bss" and
    texts: "contents = map (reader_text cs) bss"
    by blast
  have "preformatted_of story =
          map (\<lambda>content. replace CHR 0x09 ''    '' (escape_xml content)) contents"
    unfolding story by (rule bodies_of_story [OF read_all_length [OF contents]])
  then have bodies: "preformatted_of story =
          map (\<lambda>bs. replace CHR 0x09 ''    '' (escape_xml (reader_text cs bs))) bss"
    by (simp add: texts comp_def)
  have plain: "preformatted_of story ! i = replace CHR 0x09 ''    '' (reader_text cs (bss ! i))"
    if "i < length bss"
      "CHR ''&'' \<notin> set (reader_text cs (bss ! i)) \<and>
       CHR ''<'' \<notin> set (reader_text cs (bss ! i)) \<and>
       CHR ''>'' \<notin> set (reader_text cs (bss ! i))" for i
    using that by (simp add: bodies escape_xml_plain)
  show "\<exists>files bss.
         get_all_files fs REPO_ROOT = Inr files \<and>
         map (read_bytes fs) files = map Inr bss \<and>
         preformatted_of story =
           map (\<lambda>bs. replace CHR 0x09 ''    ''
                       (escape_xml
                          (universal_newlines
                             (case utf_8 cs bs of Some text \<Rightarrow> text | None \<Rightarrow> latin_1 bs))))
             bss \<and>
         (\<forall>i<length bss.
            CHR ''&'' \<notin> set (reader_text cs (bss ! i)) \<and>
            CHR ''<'' \<notin> set (reader_text cs (bss ! i)) \<and>
            CHR ''>'' \<notin> set (reader_text cs (bss ! i)) \<longrightarrow>
            preformatted_of story ! i =
              replace CHR 0x09 ''    ''
                (universal_newlines
                   (case utf_8 cs (bss ! i) of Some text \<Rightarrow> text
                    | None \<Rightarrow> latin_1 (bss ! i))))"
    using files bss bodies plain unfolding reader_text_def by blast
qed

lemma crlf_run:
  "outcome (main ascii_codecs crlf_fs) =
     Inr (story_of [REPO_ROOT @ [''a.txt'']] [[CHR ''a'', CHR 0x0A, CHR ''b'']])"
  by code_simp

theorem escaping_round_trip_witness:
  "unescape_xml (escape_xml ''x<y'') = ''x<y'' \<and> escape_xml ''hello'' = ''hello'' \<and>
   outcome (main ascii_codecs crlf_fs) =
     Inr (story_of [REPO_ROOT @ [''a.txt'']] [[CHR ''a'', CHR 0x0A, CHR ''b'']]) \<and>
   preformatted_of (story_of [REPO_ROOT @ [''a.txt'']] [[CHR ''a'', CHR 0x0A, CHR ''b'']]) =
     [[CHR ''a'', CHR 0x0A, CHR ''b'']] \<and>
   (\<exists>files bss.
      get_all_files crlf_fs REPO_ROOT = Inr files \<and>
      map (read_bytes crlf_fs) files = map Inr bss \<and>
      preformatted_of (story_of [REPO_ROOT @ [''a.txt'']] [[CHR ''a'', CHR 0x0A, CHR ''b'']]) =
        map (\<lambda>bs. replace CHR 0x09 ''    ''
                    (escape_xml
                       (universal_newlines
                          (case utf_8 ascii_codecs bs of Some text \<Rightarrow> text
                           | None \<Rightarrow> latin_1 bs))))
          bss)"
proof -
  let ?story = "story_of [REPO_ROOT @ [''a.txt'']] [[CHR ''a'', CHR 0x0A, CHR ''b'']]"
  have bodies: "preformatted_of ?story = [[CHR ''a'', CHR 0x0A, CHR ''b'']]"
    by code_simp
  note first = escaping_round_trip [of "''x<y''" ascii_codecs crlf_fs ?story]
  note second = escaping_round_trip [of "''hello''" ascii_codecs crlf_fs ?story]
  have undone: "unescape_xml (escape_xml ''x<y'') = ''x<y''"
    using first by (rule conjunct1)
  have "CHR ''&'' \<notin> set ''hello'' \<and> CHR ''<'' \<notin> set ''hello'' \<and> CHR ''>'' \<notin> set ''hello''"
    by simp
  with second have plain: "escape_xml ''hello'' = ''hello''"
    by blast
  from first crlf_run have "\<exists>files bss.
      get_all_files crlf_fs REPO_ROOT = Inr files \<and>
      map (read_bytes crlf_fs) files = map Inr bss \<and>
      preformatted_of ?story =
        map (\<lambda>bs. replace CHR 0x09 ''    ''
                    (escape_xml
                       (universal_newlines
                          (case utf_8 ascii_codecs bs of Some text \<Rightarrow> text
                           | None \<Rightarrow> latin_1 bs))))
          bss"
    by blast
  with undone plain crlf_run bodies show ?thesis
    by blast
qed

section \<open>A tree without selectable files\<close>

lemma output_path_str:
  "path_str output_path = ''/home/user/CodeUpgradeEngine/CodeUpgradeEngine_Repository.pdf''"
  by code_simp

lemma str_nat_0: "str_nat 0 = ''0''"
  by code_simp

text \<open>
  C9. When the walk ends without an exception, none of its entries is kept, and the PDF
  library builds the document, the run ends normally: it prints that 0 files were found,
  and the story it builds is the title block with the count 0, the heading of the table
  of contents with no entry under it, and the two page breaks.
\<close>

theorem empty_tree_still_builds:
  assumes "snd (walk fs REPO_ROOT) = None"
    and "\<forall>rel\<in>set (fst (walk fs REPO_ROOT)). keep fs (REPO_ROOT @ rel) = Inr False"
    and "build fs (path_str output_path)
           [Spacer 10 1440,
            Paragraph ''CodeUpgradeEngine'' CustomTitle,
            Paragraph ''Complete Repository Source Code'' CustomSubtitle,
            Paragraph ''Total Files: 0'' CustomSubtitle,
            PageBreak,
            Paragraph ''Table of Contents'' Heading1,
            Spacer 10 144,
            PageBreak] = None"
  shows "main cs fs =
           \<lparr>stdout =
              [''Collecting files from repository...'',
               ''Found 0 files to include'',
               ''Building PDF...'',
               CHR 0x0A # ''PDF created successfully: ''
                 @ ''/home/user/CodeUpgradeEngine/CodeUpgradeEngine_Repository.pdf''],
            outcome =
              Inr [Spacer 10 1440,
                   Paragraph ''CodeUpgradeEngine'' CustomTitle,
                   Paragraph ''Complete Repository Source Code'' CustomSubtitle,
                   Paragraph ''Total Files: 0'' CustomSubtitle,
                   PageBreak,
                   Paragraph ''Table of Contents'' Heading1,
                   Spacer 10 144,
                   PageBreak]\<rparr>"
proof -
  have "filter (\<lambda>p. keep fs p = Inr True) (fst (rglob fs REPO_ROOT)) = []"
    using assms(2) by (auto simp: rglob_def filter_empty_conv)
  then have files: "get_all_files fs REPO_ROOT = Inr []"
    using assms(1,2) by (auto simp: get_all_files_Inr_iff rglob_def)
  show ?thesis
    using assms(3)
    by (simp add: main_def files title_page_def toc_heading_def str_nat_0 output_path_str)
qed

theorem empty_tree_still_builds_witness:
  "snd (walk bare_fs REPO_ROOT) = None \<and>
   list_all (\<lambda>rel. keep bare_fs (REPO_ROOT @ rel) = Inr False) (fst (walk bare_fs REPO_ROOT)) \<and>
   stdout (main ascii_codecs bare_fs) ! 1 = ''Found 0 files to include'' \<and>
   paragraphs_of TOC (projr (outcome (main ascii_codecs bare_fs))) = [] \<and>
   main ascii_codecs bare_fs =
     \<lparr>stdout =
        [''Collecting files from repository...'',
         ''Found 0 files to include'',
         ''Building PDF...'',
         CHR 0x0A # ''PDF created successfully: ''
           @ ''/home/user/CodeUpgradeEngine/CodeUpgradeEngine_Repository.pdf''],
      outcome =
        Inr [Spacer 10 1440,
             Paragraph ''CodeUpgradeEngine'' CustomTitle,
             Paragraph ''Complete Repository Source Code'' CustomSubtitle,
             Paragraph ''Total Files: 0'' CustomSubtitle,
             PageBreak,
             Paragraph ''Table of Contents'' Heading1,
             Spacer 10 144,
             PageBreak]\<rparr>"
proof -
  have ended: "snd (walk bare_fs REPO_ROOT) = None"
    by (simp add: bare_fs_def)
  have none_kept:
    "\<forall>rel\<in>set (fst (walk bare_fs REPO_ROOT)). keep bare_fs (REPO_ROOT @ rel) = Inr False"
    by code_simp
  have built: "build bare_fs (path_str output_path)
           [Spacer 10 1440,
            Paragraph ''CodeUpgradeEngine'' CustomTitle,
            Paragraph ''Complete Repository Source Code'' CustomSubtitle,
            Paragraph ''Total Files: 0'' CustomSubtitle,
            PageBreak,
            Paragraph ''Table of Contents'' Heading1,
            Spacer 10 144,
            PageBreak] = None"
    by (simp add: bare_fs_def)
  from empty_tree_still_builds [OF ended none_kept built, of ascii_codecs] ended none_kept
  show ?thesis by (simp add: list_all_iff)
qed

section \<open>Exceptions end the run\<close>

lemma keep_Inl_iff: "keep fs p = Inl e \<longleftrightarrow> is_file fs p = Inl e"
  by (cases "is_file fs p") (auto simp: keep_def)

lemma get_all_files_walk_error:
  assumes "snd (walk fs root) = Some e"
    and "\<forall>p\<in>set (fst (rglob fs root)). \<exists>f. is_file fs p = Inr f"
  shows "get_all_files fs root = Inl e"
proof -
  have "\<forall>p\<in>set (fst (rglob fs root)). \<exists>k. keep fs p = Inr k"
  proof
    fix p assume "p \<in> set (fst (rglob fs root))"
    with assms(2) obtain f where "is_file fs p = Inr f" by blast
    then show "\<exists>k. keep fs p = Inr k"
      by (cases "keep fs p") (auto simp: keep_Inl_iff)
  qed
  then obtain kept where "collect fs (fst (rglob fs root)) = Inr kept"
    using collect_Inr_iff by blast
  then show ?thesis
    using assms(1) by (simp add: get_all_files_def rglob_def)
qed

lemma get_all_files_is_file_error:
  assumes "p \<in> set (fst (rglob fs root))" and "is_file fs p = Inl e"
  shows "\<exists>e'. get_all_files fs root = Inl e'"
proof -
  have "\<not> (\<forall>p\<in>set (fst (rglob fs root)). \<exists>k. keep fs p = Inr k)"
  proof
    assume "\<forall>p\<in>set (fst (rglob fs root)). \<exists>k. keep fs p = Inr k"
    with assms(1) obtain k where "keep fs p = Inr k" by blast
    moreover have "keep fs p = Inl e" using assms(2) by (simp add: keep_Inl_iff)
    ultimately show False by simp
  qed
  then have "\<nexists>files. get_all_files fs root = Inr files"
    by (simp add: get_all_files_Inr_iff)
  then show ?thesis
    by (cases "get_all_files fs root") auto
qed

lemma read_all_readable:
  "(\<forall>q\<in>set files. \<exists>bs. read_bytes fs q = Inr bs) \<longleftrightarrow>
   (\<exists>contents. map (read_file_safely cs fs) files = map Inr contents)"
proof (induction files)
  case Nil
  show ?case by simp
next
  case (Cons p ps)
  have "(\<exists>bs. read_bytes fs p = Inr bs) \<longleftrightarrow> (\<exists>c. read_file_safely cs fs p = Inr c)"
    using read_file_safely_Inl_iff [of cs fs p]
    by (cases "read_bytes fs p"; cases "read_file_safely cs fs p") auto
  with Cons show ?case
    by (auto simp: Cons_eq_map_conv)
qed

lemma main_read_error:
  assumes "get_all_files fs REPO_ROOT = Inr (pre @ p # post)"
    and "\<forall>q\<in>set pre. \<exists>bs. read_bytes fs q = Inr bs"
    and "read_bytes fs p = Inl e"
  shows "outcome (main cs fs) = Inl e"
proof -
  have under: "\<forall>q\<in>set (pre @ [p]). take (length REPO_ROOT) q = REPO_ROOT"
    using get_all_files_under_root [OF assms(1)] by auto
  obtain contents where "map (read_file_safely cs fs) pre = map Inr contents"
    using assms(2) read_all_readable [of pre fs cs] by blast
  moreover have "read_file_safely cs fs p = Inl e"
    using assms(3) by (simp add: read_file_safely_Inl_iff)
  ultimately have "snd (file_sections cs fs (length (pre @ p # post)) 1 (pre @ p # post)) = Inl e"
    using file_sections_Inl [OF under] by blast
  then show ?thesis
    by (simp add: main_selected [OF assms(1)])
qed

lemma main_build_error:
  assumes "get_all_files fs REPO_ROOT = Inr files"
    and "map (read_file_safely cs fs) files = map Inr contents"
    and "build fs (path_str output_path) (story_of files contents) = Some e"
  shows "outcome (main cs fs) = Inl e"
  using main_all_read [OF assms(1,2)] assms(3) by simp

lemma rglob_raised_not_ignored:
  "snd (rglob_dir ignored rel tree) = Some e \<Longrightarrow> \<not> ignored e"
  and rglob_subdirs_raised_not_ignored:
  "snd (rglob_subdirs ignored rel entries) = Some e \<Longrightarrow> \<not> ignored e"
  by (induction ignored rel tree and ignored rel entries
        rule: rglob_dir_rglob_subdirs.induct)
     (auto split: if_splits prod.splits option.splits)

lemma seen_entries_names:
  "map (\<lambda>entry. rel @ [fst entry]) (seen_entries ignored entries) =
   map (\<lambda>entry. rel @ [fst entry]) entries"
  by (induction entries) auto

lemma rglob_seen:
  "rglob_dir ignored rel (seen ignored tree) = rglob_dir ignored rel tree"
  and rglob_subdirs_seen:
  "rglob_subdirs ignored rel (seen_entries ignored entries) = rglob_subdirs ignored rel entries"
  by (induction ignored rel tree and ignored rel entries
        rule: rglob_dir_rglob_subdirs.induct)
     (auto simp: seen_entries_names split: prod.splits option.splits)

text \<open>
  C6, as it is stated, fails for the enumeration. Listing the directory
  \<^verbatim>\<open>private\<close> raises \<^verbatim>\<open>PermissionError\<close>; pathlib catches it, in Python 3.11 and
  in Python 3.12, and passes the directory over. The run ends normally, and its
  document has \<^verbatim>\<open>a.py\<close> and not \<^verbatim>\<open>private/b.md\<close>, which a run on the same tree
  with the directory open to listing includes.
\<close>

theorem errors_end_the_run_counterexample:
  "rglob_dir ignored_3_11 [] locked_tree = ([[''a.py''], [''private'']], None) \<and>
   rglob_dir ignored_3_12 [] locked_tree = ([[''a.py''], [''private'']], None) \<and>
   rglob_dir ignored_3_11 [] open_tree =
     ([[''a.py''], [''private''], [''private'', ''b.md'']], None) \<and>
   map_sum id (paragraphs_of FileHeader)
     (outcome (main ascii_codecs (tree_fs ignored_3_11 locked_tree plain_fs))) =
     Inr [''File: a.py''] \<and>
   map_sum id (paragraphs_of FileHeader)
     (outcome (main ascii_codecs (tree_fs ignored_3_12 locked_tree plain_fs))) =
     Inr [''File: a.py''] \<and>
   map_sum id (paragraphs_of FileHeader)
     (outcome (main ascii_codecs (tree_fs ignored_3_11 open_tree plain_fs))) =
     Inr [''File: a.py'', ''File: private/b.md'']"
  by code_simp

text \<open>
  C6, as the code has it. The program catches no exception other than a decoding error
  and tries nothing again. An exception that ends the iteration of \<^verbatim>\<open>rglob\<close>, or
  one of \<^verbatim>\<open>is_file\<close>, leaves \<^verbatim>\<open>get_all_files\<close>, and an exception of
  \<^verbatim>\<open>get_all_files\<close> ends the run. The first selected file whose bytes cannot be read
  ends the run with the exception of the read, and so does an exception of the PDF
  library while it builds the document. A run that ends normally has read every
  selected file and its story has a section for each of them. The enumeration is
  different: an exception of a listing that pathlib catches never leaves
  \<^verbatim>\<open>rglob\<close>, the walk is the walk of the tree in which every directory with such an
  exception is empty, and the run is the run on that tree; the files under such a
  directory are passed over and the document has the rest.
\<close>

theorem errors_end_the_run:
  "(snd (walk fs REPO_ROOT) = Some e \<and>
    (\<forall>p\<in>set (fst (rglob fs REPO_ROOT)). \<exists>f. is_file fs p = Inr f) \<longrightarrow>
      get_all_files fs REPO_ROOT = Inl e) \<and>
   (p \<in> set (fst (rglob fs REPO_ROOT)) \<and> is_file fs p = Inl e \<longrightarrow>
      (\<exists>e'. get_all_files fs REPO_ROOT = Inl e')) \<and>
   (get_all_files fs REPO_ROOT = Inl e \<longrightarrow> outcome (main cs fs) = Inl e) \<and>
   (get_all_files fs REPO_ROOT = Inr (pre @ p # post) \<and>
    (\<forall>q\<in>set pre. \<exists>bs. read_bytes fs q = Inr bs) \<and> read_bytes fs p = Inl e \<longrightarrow>
      outcome (main cs fs) = Inl e) \<and>
   (get_all_files fs REPO_ROOT = Inr files \<and>
    map (read_file_safely cs fs) files = map Inr contents \<and>
    build fs (path_str output_path) (story_of files contents) = Some e \<longrightarrow>
      outcome (main cs fs) = Inl e) \<and>
   (outcome (main cs fs) = Inr story \<longrightarrow>
      (\<exists>files contents.
         get_all_files fs REPO_ROOT = Inr files \<and>
         (\<forall>q\<in>set files. \<exists>bs. read_bytes fs q = Inr bs) \<and>
         map (read_file_safely cs fs) files = map Inr contents \<and>
         story = story_of files contents \<and>
         length (paragraphs_of FileHeader story) = length files \<and>
         length (preformatted_of story) = length files \<and>
         build fs (path_str output_path) story = None)) \<and>
   (snd (rglob_dir ignored rel tree) = Some e \<longrightarrow> \<not> ignored e) \<and>
   rglob_dir ignored rel (seen ignored tree) = rglob_dir ignored rel tree \<and>
   main cs (tree_fs ignored (seen ignored tree) fs) = main cs (tree_fs ignored tree fs)"
proof (intro conjI impI)
  show "\<not> ignored e" if "snd (rglob_dir ignored rel tree) = Some e"
    using that by (rule rglob_raised_not_ignored)
  show "rglob_dir ignored rel (seen ignored tree) = rglob_dir ignored rel tree"
    by (rule rglob_seen)
  show "main cs (tree_fs ignored (seen ignored tree) fs) = main cs (tree_fs ignored tree fs)"
    by (simp only: tree_fs_def rglob_seen)
  show "get_all_files fs REPO_ROOT = Inl e"
    if "snd (walk fs REPO_ROOT) = Some e \<and>
        (\<forall>p\<in>set (fst (rglob fs REPO_ROOT)). \<exists>f. is_file fs p = Inr f)"
    using that get_all_files_walk_error [of fs REPO_ROOT e] by blast
  show "\<exists>e'. get_all_files fs REPO_ROOT = Inl e'"
    if "p \<in> set (fst (rglob fs REPO_ROOT)) \<and> is_file fs p = Inl e"
    using that get_all_files_is_file_error [of p fs REPO_ROOT e] by blast
  show "outcome (main cs fs) = Inl e" if "get_all_files fs REPO_ROOT = Inl e"
    using that by (rule main_not_selected)
  show "outcome (main cs fs) = Inl e"
    if "get_all_files fs REPO_ROOT = Inr (pre @ p # post) \<and>
        (\<forall>q\<in>set pre. \<exists>bs. read_bytes fs q = Inr bs) \<and> read_bytes fs p = Inl e"
    using that main_read_error [of fs pre p post e cs] by blast
  show "outcome (main cs fs) = Inl e"
    if "get_all_files fs REPO_ROOT = Inr files \<and>
        map (read_file_safely cs fs) files = map Inr contents \<and>
        build fs (path_str output_path) (story_of files contents) = Some e"
    using that main_build_error [of fs files cs contents e] by blast
next
  assume "outcome (main cs fs) = Inr story"
  then obtain files contents where
    files: "get_all_files fs REPO_ROOT = Inr files" and
    contents: "map (read_file_safely cs fs) files = map Inr contents" and
    story: "story = story_of files contents" and
    built: "build fs (path_str output_path) story = None"
    by (auto simp: main_Inr_iff)
  note len = read_all_length [OF contents]
  have "\<forall>q\<in>set files. \<exists>bs. read_bytes fs q = Inr bs"
    using contents read_all_readable [of files fs cs] by blast
  moreover have "length (paragraphs_of FileHeader story) = length files"
    unfolding story headers_of_story [OF len] by simp
  moreover have "length (preformatted_of story) = length files"
    unfolding story bodies_of_story [OF len] using len by simp
  ultimately show "\<exists>files contents.
         get_all_files fs REPO_ROOT = Inr files \<and>
         (\<forall>q\<in>set files. \<exists>bs. read_bytes fs q = Inr bs) \<and>
         map (read_file_safely cs fs) files = map Inr contents \<and>
         story = story_of files contents \<and>
         length (paragraphs_of FileHeader story) = length files \<and>
         length (preformatted_of story) = length files \<and>
         build fs (path_str output_path) story = None"
    using files contents story built by blast
qed

theorem errors_end_the_run_witness:
  "outcome (main ascii_codecs (tree_fs ignored_3_11 vanished_tree plain_fs)) =
     Inl FileNotFoundError \<and>
   outcome (main ascii_codecs read_error_fs) = Inl PermissionError \<and>
   outcome (main ascii_codecs build_error_fs) = Inl OSError \<and>
   (\<exists>files contents.
      get_all_files scenario_fs REPO_ROOT = Inr files \<and>
      (\<forall>q\<in>set files. \<exists>bs. read_bytes scenario_fs q = Inr bs) \<and>
      map (read_file_safely ascii_codecs scenario_fs) files = map Inr contents \<and>
      scenario_story = story_of files contents \<and>
      length (paragraphs_of FileHeader scenario_story) = length files \<and>
      length (preformatted_of scenario_story) = length files \<and>
      build scenario_fs (path_str output_path) scenario_story = None) \<and>
   seen ignored_3_11 locked_tree = Dir None [(''a.py'', File), (''private'', Dir None [])] \<and>
   main ascii_codecs
     (tree_fs ignored_3_11 (Dir None [(''a.py'', File), (''private'', Dir None [])]) plain_fs) =
     main ascii_codecs (tree_fs ignored_3_11 locked_tree plain_fs)"
proof -
  have walk_raises:
    "snd (walk (tree_fs ignored_3_11 vanished_tree plain_fs) REPO_ROOT) =
       Some FileNotFoundError \<and>
     (\<forall>p\<in>set (fst (rglob (tree_fs ignored_3_11 vanished_tree plain_fs) REPO_ROOT)).
        \<exists>f. is_file (tree_fs ignored_3_11 vanished_tree plain_fs) p = Inr f)"
    by (simp add: tree_fs_def vanished_tree_def plain_fs_def ignored_3_11_def)
  have one: "outcome (main ascii_codecs (tree_fs ignored_3_11 vanished_tree plain_fs)) =
               Inl FileNotFoundError"
    using errors_end_the_run
            [where fs = "tree_fs ignored_3_11 vanished_tree plain_fs"
               and e = FileNotFoundError and cs = ascii_codecs]
          walk_raises
    by blast
  have selected:
    "get_all_files read_error_fs REPO_ROOT =
       Inr ([REPO_ROOT @ [''a.py'']] @ (REPO_ROOT @ [''b.md'']) # [])"
    by code_simp
  have first_read: "\<forall>q\<in>set [REPO_ROOT @ [''a.py'']]. \<exists>bs. read_bytes read_error_fs q = Inr bs"
    by (simp add: read_error_fs_def name_def REPO_ROOT_def)
  have second_read: "read_bytes read_error_fs (REPO_ROOT @ [''b.md'']) = Inl PermissionError"
    by code_simp
  have two: "outcome (main ascii_codecs read_error_fs) = Inl PermissionError"
    using errors_end_the_run
            [where fs = read_error_fs and e = PermissionError and p = "REPO_ROOT @ [''b.md'']"
               and cs = ascii_codecs and pre = "[REPO_ROOT @ [''a.py'']]" and post = "[]"]
          selected first_read second_read
    by blast
  have files: "get_all_files build_error_fs REPO_ROOT =
                 Inr [REPO_ROOT @ [''a.py''], REPO_ROOT @ [''b.md'']]"
    by code_simp
  have reads: "map (read_file_safely ascii_codecs build_error_fs)
                 [REPO_ROOT @ [''a.py''], REPO_ROOT @ [''b.md'']] = map Inr [''x<y'', ''hello'']"
    by code_simp
  have fails: "build build_error_fs (path_str output_path)
                 (story_of [REPO_ROOT @ [''a.py''], REPO_ROOT @ [''b.md'']] [''x<y'', ''hello''])
               = Some OSError"
    by (simp add: build_error_fs_def)
  have three: "outcome (main ascii_codecs build_error_fs) = Inl OSError"
    using errors_end_the_run
            [where fs = build_error_fs and e = OSError and cs = ascii_codecs
               and files = "[REPO_ROOT @ [''a.py''], REPO_ROOT @ [''b.md'']]"
               and contents = "[''x<y'', ''hello'']"]
          files reads fails
    by blast
  have four: "\<exists>files contents.
      get_all_files scenario_fs REPO_ROOT = Inr files \<and>
      (\<forall>q\<in>set files. \<exists>bs. read_bytes scenario_fs q = Inr bs) \<and>
      map (read_file_safely ascii_codecs scenario_fs) files = map Inr contents \<and>
      scenario_story = story_of files contents \<and>
      length (paragraphs_of FileHeader scenario_story) = length files \<and>
      length (preformatted_of scenario_story) = length files \<and>
      build scenario_fs (path_str output_path) scenario_story = None"
    using errors_end_the_run
            [where fs = scenario_fs and cs = ascii_codecs and story = scenario_story]
          scenario_run
    by blast
  have walked: "seen ignored_3_11 locked_tree =
                  Dir None [(''a.py'', File), (''private'', Dir None [])]"
    by code_simp
  have five: "main ascii_codecs (tree_fs ignored_3_11 (seen ignored_3_11 locked_tree) plain_fs) =
                main ascii_codecs (tree_fs ignored_3_11 locked_tree plain_fs)"
    using errors_end_the_run
            [where fs = plain_fs and cs = ascii_codecs and ignored = ignored_3_11
               and tree = locked_tree]
    by blast
  from one two three four walked five show ?thesis
    by (simp only: walked)
qed

section \<open>The order of the table of contents and of the sections\<close>

lemma precedes_in_set: "precedes xs a b \<Longrightarrow> a \<in> set xs \<and> b \<in> set xs"
  by (induction xs) auto

lemma sorted_precedes:
  "sorted (map f xs) \<Longrightarrow> a \<in> set xs \<Longrightarrow> b \<in> set xs \<Longrightarrow> f a < f b \<Longrightarrow>
   precedes xs a b \<and> \<not> precedes xs b a"
proof (induction xs)
  case Nil
  then show ?case by simp
next
  case (Cons x xs)
  have le: "\<forall>y\<in>set xs. f x \<le> f y" and sorted: "sorted (map f xs)"
    using Cons.prems(1) by auto
  have b_not_x: "b \<noteq> x"
  proof
    assume "b = x"
    with Cons.prems(2,4) le show False by (cases "a = x") auto
  qed
  with Cons.prems(3) have b: "b \<in> set xs" by simp
  show ?case
  proof (cases "a \<in> set xs")
    case True
    with Cons.IH [OF sorted True b Cons.prems(4)] b_not_x show ?thesis by auto
  next
    case False
    with Cons.prems(2) have "a = x" by simp
    moreover have "\<not> precedes xs b a" using False precedes_in_set by fastforce
    ultimately show ?thesis using b b_not_x by auto
  qed
qed

lemma precedes_sorted:
  "sorted (map f xs) \<Longrightarrow> precedes xs a b \<Longrightarrow> f a \<le> f b"
  by (induction xs) (auto dest: precedes_in_set)

lemma append_less_append: "(xs @ ys < xs @ zs) = (ys < zs)" for ys :: "'a::linorder list"
  by (induction xs) simp_all

lemma path_str_under_root:
  "rel \<noteq> [] \<Longrightarrow> hd rel \<noteq> ''/'' \<Longrightarrow>
   path_str (REPO_ROOT @ rel) = ''/home/user/CodeUpgradeEngine/'' @ path_str rel"
  by (cases rel) (simp_all add: REPO_ROOT_def)

lemma sort_key_of_relative:
  assumes "rel \<noteq> []" "hd rel \<noteq> ''/''" "rel' \<noteq> []" "hd rel' \<noteq> ''/''"
  shows "sort_key_of (REPO_ROOT @ rel) < sort_key_of (REPO_ROOT @ rel') \<longleftrightarrow>
         lower (path_str rel) < lower (path_str rel')"
  using assms by (simp add: sort_key_of_def path_str_under_root lower_def append_less_append)

lemma get_all_files_stable:
  assumes "get_all_files fs root = Inr files"
  shows "filter (\<lambda>p. sort_key_of p = k) files =
         filter (\<lambda>p. sort_key_of p = k \<and> keep fs p = Inr True) (fst (rglob fs root))"
proof -
  have "files = sort_key sort_key_of (filter (\<lambda>p. keep fs p = Inr True) (fst (rglob fs root)))"
    using assms by (simp add: get_all_files_Inr_iff)
  then show ?thesis
    by (simp add: sort_key_stable conj_commute)
qed

text \<open>
  C2, as it is stated, fails on two files whose paths differ in case only: \<^verbatim>\<open>a.py\<close>
  comes before \<^verbatim>\<open>A.py\<close> in the table of contents and in the sections, and its
  lower-cased string is not smaller, neither with the root nor without it.
\<close>

theorem order_iff_counterexample:
  "get_all_files case_fs REPO_ROOT = Inr [REPO_ROOT @ [''a.py''], REPO_ROOT @ [''A.py'']] \<and>
   map_sum id (paragraphs_of TOC) (outcome (main ascii_codecs case_fs)) =
     Inr [''1. a.py'', ''2. A.py''] \<and>
   map_sum id (paragraphs_of FileHeader) (outcome (main ascii_codecs case_fs)) =
     Inr [''File: a.py'', ''File: A.py''] \<and>
   precedes [REPO_ROOT @ [''a.py''], REPO_ROOT @ [''A.py'']]
     (REPO_ROOT @ [''a.py'']) (REPO_ROOT @ [''A.py'']) \<and>
   \<not> sort_key_of (REPO_ROOT @ [''a.py'']) < sort_key_of (REPO_ROOT @ [''A.py'']) \<and>
   \<not> lower ''a.py'' < lower ''A.py''"
  by code_simp

text \<open>
  C2, as the code has it. In the story of a run that succeeds, the table of contents and
  the file headers follow one list, the sorted list of the selected files. A file whose
  lower-cased path string is smaller comes before, and never after, one whose string is
  greater; a file that comes before another has a string that is not greater. The
  strings of two files under the root compare as the lower-cased strings of their
  relative paths do. Files with equal strings all stay, in the order in which the walk
  yielded them.
\<close>

theorem order_follows_sort_key:
  assumes "outcome (main cs fs) = Inr story"
  shows "\<exists>files.
           get_all_files fs REPO_ROOT = Inr files \<and>
           paragraphs_of TOC story =
             map (\<lambda>(i, p). escape_xml (str_nat i @ ''. ''
                                         @ path_str (drop (length REPO_ROOT) p)))
               (zip [1..<1 + length files] files) \<and>
           paragraphs_of FileHeader story =
             map (\<lambda>p. escape_xml (''File: '' @ path_str (drop (length REPO_ROOT) p))) files \<and>
           sorted (map sort_key_of files) \<and>
           (\<forall>a\<in>set files. \<forall>b\<in>set files.
              (sort_key_of a < sort_key_of b \<longrightarrow> precedes files a b \<and> \<not> precedes files b a) \<and>
              (precedes files a b \<longrightarrow> sort_key_of a \<le> sort_key_of b)) \<and>
           (\<forall>rel rel'. rel \<noteq> [] \<and> hd rel \<noteq> ''/'' \<and> rel' \<noteq> [] \<and> hd rel' \<noteq> ''/'' \<longrightarrow>
              (sort_key_of (REPO_ROOT @ rel) < sort_key_of (REPO_ROOT @ rel') \<longleftrightarrow>
               lower (path_str rel) < lower (path_str rel'))) \<and>
           (\<forall>k. filter (\<lambda>p. sort_key_of p = k) files =
                filter (\<lambda>p. sort_key_of p = k \<and> keep fs p = Inr True)
                  (fst (rglob fs REPO_ROOT)))"
proof -
  from assms obtain files contents where
    files: "get_all_files fs REPO_ROOT = Inr files" and
    contents: "map (read_file_safely cs fs) files = map Inr contents" and
    story: "story = story_of files contents"
    by (auto simp: main_Inr_iff)
  note len = read_all_length [OF contents]
  have sorted: "sorted (map sort_key_of files)"
    using files by (simp add: get_all_files_Inr_iff)
  have order: "\<forall>a\<in>set files. \<forall>b\<in>set files.
              (sort_key_of a < sort_key_of b \<longrightarrow> precedes files a b \<and> \<not> precedes files b a) \<and>
              (precedes files a b \<longrightarrow> sort_key_of a \<le> sort_key_of b)"
    using sorted_precedes [OF sorted] precedes_sorted [OF sorted] by blast
  have relative: "\<forall>rel rel'. rel \<noteq> [] \<and> hd rel \<noteq> ''/'' \<and> rel' \<noteq> [] \<and> hd rel' \<noteq> ''/'' \<longrightarrow>
              (sort_key_of (REPO_ROOT @ rel) < sort_key_of (REPO_ROOT @ rel') \<longleftrightarrow>
               lower (path_str rel) < lower (path_str rel'))"
    using sort_key_of_relative by blast
  have stable: "\<forall>k. filter (\<lambda>p. sort_key_of p = k) files =
                filter (\<lambda>p. sort_key_of p = k \<and> keep fs p = Inr True)
                  (fst (rglob fs REPO_ROOT))"
    using get_all_files_stable [OF files] by blast
  show ?thesis
    using files toc_of_story [OF len] headers_of_story [OF len] sorted order relative stable
    unfolding story by blast
qed

lemma case_run:
  "outcome (main ascii_codecs case_fs) =
     Inr (story_of [REPO_ROOT @ [''a.py''], REPO_ROOT @ [''A.py'']] [[], []])"
  by code_simp

theorem order_follows_sort_key_witness:
  "outcome (main ascii_codecs case_fs) =
     Inr (story_of [REPO_ROOT @ [''a.py''], REPO_ROOT @ [''A.py'']] [[], []]) \<and>
   (\<exists>files.
      get_all_files case_fs REPO_ROOT = Inr files \<and>
      sorted (map sort_key_of files) \<and>
      (\<forall>a\<in>set files. \<forall>b\<in>set files.
         (sort_key_of a < sort_key_of b \<longrightarrow> precedes files a b \<and> \<not> precedes files b a) \<and>
         (precedes files a b \<longrightarrow> sort_key_of a \<le> sort_key_of b)) \<and>
      (\<forall>k. filter (\<lambda>p. sort_key_of p = k) files =
           filter (\<lambda>p. sort_key_of p = k \<and> keep case_fs p = Inr True)
             (fst (rglob case_fs REPO_ROOT))))"
  using order_follows_sort_key [OF case_run] case_run by blast

section \<open>Two runs on one tree\<close>

lemma try_encodings_cong:
  "read_bytes fs' = read_bytes fs \<Longrightarrow>
   try_encodings cs fs' encodings p = try_encodings cs fs encodings p"
  by (induction encodings) (simp_all split: sum.splits option.splits)

lemma read_file_safely_cong:
  "read_bytes fs' = read_bytes fs \<Longrightarrow> read_file_safely cs fs' p = read_file_safely cs fs p"
  unfolding read_file_safely_def by (rule try_encodings_cong)

lemma file_sections_cong:
  assumes "read_bytes fs' = read_bytes fs"
  shows "file_sections cs fs' n i files = file_sections cs fs n i files"
proof (induction files arbitrary: i)
  case Nil
  show ?case by simp
next
  case (Cons p ps)
  show ?case
    by (simp only: file_sections.simps Cons.IH read_file_safely_cong [OF assms])
qed

lemma main_cong:
  assumes "get_all_files fs' REPO_ROOT = get_all_files fs REPO_ROOT"
    and "read_bytes fs' = read_bytes fs" and "build fs' = build fs"
  shows "main cs fs' = main cs fs"
  unfolding main_def by (simp only: assms file_sections_cong [OF assms(2)])

lemma keep_cong: "is_file fs' = is_file fs \<Longrightarrow> keep fs' p = keep fs p"
  by (simp add: keep_def)

lemma get_all_files_permuted:
  assumes listing: "mset (fst (walk fs' root)) = mset (fst (walk fs root))"
    and ended: "snd (walk fs' root) = snd (walk fs root)"
    and same: "is_file fs' = is_file fs"
    and files: "get_all_files fs root = Inr files"
  shows "\<exists>files'. get_all_files fs' root = Inr files' \<and> mset files' = mset files \<and>
           map sort_key_of files' = map sort_key_of files \<and>
           (distinct (map sort_key_of files) \<longrightarrow> files' = files)"
proof -
  let ?K = "\<lambda>p. keep fs p = Inr True"
  let ?ps = "fst (rglob fs root)" and ?ps' = "fst (rglob fs' root)"
  let ?files' = "sort_key sort_key_of (filter ?K ?ps')"
  have perm: "mset ?ps' = mset ?ps"
    using listing by (simp add: rglob_def)
  then have sets: "set ?ps' = set ?ps"
    by (rule mset_eq_setD)
  have keep: "keep fs' = keep fs"
    using same by (simp add: keep_cong fun_eq_iff)
  have files_eq: "files = sort_key sort_key_of (filter ?K ?ps)"
    and ok: "\<forall>p\<in>set ?ps. \<exists>k. keep fs p = Inr k" and none: "snd (rglob fs root) = None"
    using files by (simp_all add: get_all_files_Inr_iff)
  have run': "get_all_files fs' root = Inr ?files'"
    using ok none sets ended keep by (simp add: get_all_files_Inr_iff rglob_def)
  have msets: "mset ?files' = mset files"
    using perm by (simp add: files_eq)
  have sorted': "sorted (map sort_key_of ?files')" and sorted: "sorted (map sort_key_of files)"
    by (simp_all add: files_eq)
  have "mset (map sort_key_of ?files') = mset (map sort_key_of files)"
    using msets by (metis mset_map)
  then have "sort (map sort_key_of files) = map sort_key_of ?files'"
    using sorted' by (rule properties_for_sort)
  then have keys: "map sort_key_of ?files' = map sort_key_of files"
    using sorted by (simp add: sorted_sort_id)
  have "?files' = files" if "distinct (map sort_key_of files)"
  proof -
    have "inj_on sort_key_of (set files)"
      using that by (simp add: distinct_map)
    then have inj: "inj_on sort_key_of (set (filter ?K ?ps'))"
      using msets mset_eq_setD by fastforce
    have m: "mset (filter ?K ?ps') = mset files"
      using msets by simp
    show ?thesis
      by (rule sort_key_inj_key_eq [OF m inj sorted])
  qed
  with run' msets keys show ?thesis by blast
qed

lemma collect_cong:
  assumes "is_file fs' = is_file fs"
  shows "collect fs' ps = collect fs ps"
  by (induction ps) (simp_all add: keep_cong [OF assms] split: sum.splits)

lemma get_all_files_same_listing:
  assumes "walk fs' root = walk fs root" and "is_file fs' = is_file fs"
  shows "get_all_files fs' root = get_all_files fs root"
  unfolding get_all_files_def rglob_def by (simp only: assms collect_cong [OF assms(2)])


text \<open>
  C7, as it is stated, fails when two selected paths differ in case only. The order in
  which a directory is listed is not part of the tree (\<^verbatim>\<open>os.scandir\<close> yields the
  entries in arbitrary order), and the sort does not decide between two paths with one
  lower-cased string: with the same entries, the same answers of \<^verbatim>\<open>is_file\<close> and the
  same contents, a run that is given \<^verbatim>\<open>a.py\<close> first and a run that is given
  \<^verbatim>\<open>A.py\<close> first list the two files in opposite orders.
\<close>

theorem two_runs_counterexample:
  "mset (fst (walk swapped_fs REPO_ROOT)) = mset (fst (walk case_fs REPO_ROOT)) \<and>
   snd (walk swapped_fs REPO_ROOT) = snd (walk case_fs REPO_ROOT) \<and>
   is_file swapped_fs = is_file case_fs \<and>
   read_bytes swapped_fs = read_bytes case_fs \<and>
   build swapped_fs = build case_fs \<and>
   get_all_files case_fs REPO_ROOT = Inr [REPO_ROOT @ [''a.py''], REPO_ROOT @ [''A.py'']] \<and>
   get_all_files swapped_fs REPO_ROOT = Inr [REPO_ROOT @ [''A.py''], REPO_ROOT @ [''a.py'']] \<and>
   map_sum id (paragraphs_of TOC) (outcome (main ascii_codecs case_fs)) =
     Inr [''1. a.py'', ''2. A.py''] \<and>
   map_sum id (paragraphs_of TOC) (outcome (main ascii_codecs swapped_fs)) =
     Inr [''1. A.py'', ''2. a.py'']"
proof -
  have "mset (fst (walk swapped_fs REPO_ROOT)) = mset (fst (walk case_fs REPO_ROOT))"
    "snd (walk swapped_fs REPO_ROOT) = snd (walk case_fs REPO_ROOT)"
    "is_file swapped_fs = is_file case_fs"
    "read_bytes swapped_fs = read_bytes case_fs"
    "build swapped_fs = build case_fs"
    by (simp_all add: swapped_fs_def case_fs_def)
  moreover have
    "get_all_files case_fs REPO_ROOT = Inr [REPO_ROOT @ [''a.py''], REPO_ROOT @ [''A.py'']]"
    "get_all_files swapped_fs REPO_ROOT = Inr [REPO_ROOT @ [''A.py''], REPO_ROOT @ [''a.py'']]"
    "map_sum id (paragraphs_of TOC) (outcome (main ascii_codecs case_fs)) =
       Inr [''1. a.py'', ''2. A.py'']"
    "map_sum id (paragraphs_of TOC) (outcome (main ascii_codecs swapped_fs)) =
       Inr [''1. A.py'', ''2. a.py'']"
    by code_simp+
  ultimately show ?thesis by blast
qed

text \<open>
  C7, as the code has it. Take two runs on the same tree: the walks yield the same
  entries, perhaps in another order, and end alike, and \<^verbatim>\<open>is_file\<close>, the contents and
  the PDF library answer alike. When the first run selects its files, the second selects
  the same files, as many of them, with the same lower-cased path strings in the same
  order. When the lower-cased path strings of the selected files are all different, or
  the two walks yield the entries in the same order, the two lists are one list and the
  two runs print the same lines and end with the same story or the same exception.
\<close>

theorem two_runs_same_structure:
  assumes "mset (fst (walk fs' REPO_ROOT)) = mset (fst (walk fs REPO_ROOT))"
    and "snd (walk fs' REPO_ROOT) = snd (walk fs REPO_ROOT)"
    and "is_file fs' = is_file fs"
    and "read_bytes fs' = read_bytes fs"
    and "build fs' = build fs"
    and "get_all_files fs REPO_ROOT = Inr files"
  shows "\<exists>files'.
           get_all_files fs' REPO_ROOT = Inr files' \<and>
           mset files' = mset files \<and>
           length files' = length files \<and>
           map sort_key_of files' = map sort_key_of files \<and>
           (distinct (map sort_key_of files) \<or>
            fst (walk fs' REPO_ROOT) = fst (walk fs REPO_ROOT) \<longrightarrow>
              files' = files \<and> main cs fs' = main cs fs)"
proof -
  from get_all_files_permuted [OF assms(1,2,3,6)] obtain files' where
    run': "get_all_files fs' REPO_ROOT = Inr files'" and
    msets: "mset files' = mset files" and
    keys: "map sort_key_of files' = map sort_key_of files" and
    distinct: "distinct (map sort_key_of files) \<longrightarrow> files' = files"
    by blast
  have len: "length files' = length files"
    using msets by (rule mset_eq_length)
  have same: "files' = files" if "fst (walk fs' REPO_ROOT) = fst (walk fs REPO_ROOT)"
  proof -
    have "walk fs' REPO_ROOT = walk fs REPO_ROOT"
      using that assms(2) by (simp add: prod_eq_iff)
    then have "get_all_files fs' REPO_ROOT = get_all_files fs REPO_ROOT"
      using assms(3) by (rule get_all_files_same_listing)
    with run' assms(6) show ?thesis by simp
  qed
  have "main cs fs' = main cs fs" if "files' = files"
    using that run' assms(4,5,6) by (intro main_cong) simp_all
  with run' msets len keys distinct same show ?thesis by blast
qed

theorem two_runs_same_structure_witness:
  "mset (fst (walk reordered_fs REPO_ROOT)) = mset (fst (walk scenario_fs REPO_ROOT)) \<and>
   fst (walk reordered_fs REPO_ROOT) \<noteq> fst (walk scenario_fs REPO_ROOT) \<and>
   get_all_files scenario_fs REPO_ROOT = Inr [REPO_ROOT @ [''a.py''], REPO_ROOT @ [''b.md'']] \<and>
   distinct (map sort_key_of [REPO_ROOT @ [''a.py''], REPO_ROOT @ [''b.md'']]) \<and>
   get_all_files reordered_fs REPO_ROOT = Inr [REPO_ROOT @ [''a.py''], REPO_ROOT @ [''b.md'']] \<and>
   main ascii_codecs reordered_fs = main ascii_codecs scenario_fs"
proof -
  have listing:
    "mset (fst (walk reordered_fs REPO_ROOT)) = mset (fst (walk scenario_fs REPO_ROOT))"
    by (simp add: reordered_fs_def scenario_fs_def)
  have other: "fst (walk reordered_fs REPO_ROOT) \<noteq> fst (walk scenario_fs REPO_ROOT)"
    by (simp add: reordered_fs_def scenario_fs_def)
  have rest:
    "snd (walk reordered_fs REPO_ROOT) = snd (walk scenario_fs REPO_ROOT)"
    "is_file reordered_fs = is_file scenario_fs"
    "read_bytes reordered_fs = read_bytes scenario_fs"
    "build reordered_fs = build scenario_fs"
    by (simp_all add: reordered_fs_def scenario_fs_def)
  have keys: "distinct (map sort_key_of [REPO_ROOT @ [''a.py''], REPO_ROOT @ [''b.md'']])"
    by code_simp
  from two_runs_same_structure [OF listing rest scenario_files, of ascii_codecs]
       listing other keys scenario_files
  show ?thesis by auto
qed

end
